theory Spec2Isabelle
  imports Complex_Main "HOL-Library.AList" "HOL-Library.Product_Lexorder" "HOL-Library.Multiset"
begin

section \<open>Data model\<close>

text \<open>
  A Python dictionary is an association list with distinct keys, in the order in which
  the dictionary iterates: \<open>map_of d k\<close> is \<open>d[k]\<close>, \<open>AList.update k v d\<close> is
  \<open>d[k] = v\<close>.  A dictionary that the code only indexes, never iterates, is a map.
  An exception is a value \<open>Inl e\<close>; none of the functions below catches one, except where
  the source has a \<open>try\<close>.
\<close>

datatype py_error = KeyError | IndexError | ValueError | TypeError | RuntimeError | UnboundLocalError

type_synonym bounds = "int \<times> int"

type_synonym key = "string \<times> int"

type_synonym 'v subread_dict = "(key \<times> (bounds \<times> 'v) list) list"

text \<open>The attributes of a \<open>CmpH5Alignment\<close> that the code reads.  \<open>MapQV\<close> is also what
  \<open>main.py\<close> reads under the spelling \<open>mapQV\<close>.\<close>

record cmph5_alignment =
  movieName :: string
  HoleNumber :: int
  rStart :: int
  rEnd :: int
  referenceName :: string
  RCRefStrand :: int
  tStart :: int
  tEnd :: int
  similarity :: real
  MapQV :: int

section \<open>affixes.py\<close>

text \<open>Modelled from the spec: \<open>BasH5IO.intersectRanges\<close> belongs to the pbcore library and
  is not among the sources; section 3 of the spec has two intervals overlap iff
  \<open>max(a.start, b.start) < min(a.end, b.end)\<close>, and the function returns that common part
  or \<open>None\<close>.\<close>

definition intersectRanges :: "bounds \<Rightarrow> bounds \<Rightarrow> bounds option" where
  "intersectRanges r1 r2 =
     (let b = max (fst r1) (fst r2); e = min (snd r1) (snd r2)
      in if b < e then Some (b, e) else None)"

text \<open>\<open>find_subread_entry\<close>: the pair returned is \<open>(None, None)\<close> for a key that is not in
  the dictionary, and otherwise the key with the first subread bounds, in the order of
  iteration, that the alignment overlaps, or with \<open>None\<close> when the loop ends without a
  \<open>break\<close>.\<close>

definition find_subread_entry ::
  "cmph5_alignment \<Rightarrow> 'v subread_dict \<Rightarrow> key option \<times> bounds option" where
  "find_subread_entry cmph5_alignment subread_dict =
     (let key = (movieName cmph5_alignment, HoleNumber cmph5_alignment)
      in case map_of subread_dict key of
           None \<Rightarrow> (None, None)
         | Some subs \<Rightarrow>
             (Some key,
              List.find (\<lambda>subread_bounds.
                  intersectRanges (rStart cmph5_alignment, rEnd cmph5_alignment) subread_bounds
                    \<noteq> None)
                (map fst subs)))"

text \<open>\<open>affix_boundaries\<close>, lines 62 to 66: every subread starts with the extent \<open>None\<close>.
  \<open>alignment_extents\<close> is only indexed.\<close>

type_synonym extents = "key \<rightharpoonup> (bounds \<rightharpoonup> bounds option)"

definition init_extents :: "'v subread_dict \<Rightarrow> extents" where
  "init_extents subread_dict =
     map_of (map (\<lambda>(key, subs). (key, map_of (map (\<lambda>(subread_bounds, _). (subread_bounds, None)) subs)))
               subread_dict)"

text \<open>Lines 74 to 80: the extent after one more alignment.\<close>

fun widen :: "bounds option \<Rightarrow> cmph5_alignment \<Rightarrow> bounds option" where
  "widen None alignment = Some (rStart alignment, rEnd alignment)"
| "widen (Some current) alignment =
     Some (min (rStart alignment) (fst current), max (rEnd alignment) (snd current))"

text \<open>Lines 69 to 80, the body of the loop over the alignments.  Only \<open>key is None\<close> is
  tested: with a key and no overlapping bounds, \<open>alignment_extents[key][None]\<close> is looked
  up, and \<open>None\<close> is not one of the bounds.\<close>

definition record_extent ::
  "'v subread_dict \<Rightarrow> extents \<Rightarrow> cmph5_alignment \<Rightarrow> py_error + extents" where
  "record_extent subread_dict alignment_extents alignment =
     (case find_subread_entry alignment subread_dict of
        (None, _) \<Rightarrow> Inr alignment_extents
      | (Some key, overlapping_bounds) \<Rightarrow>
          (case alignment_extents key of
             None \<Rightarrow> Inl KeyError
           | Some inner \<Rightarrow>
               (case overlapping_bounds of
                  None \<Rightarrow> Inl KeyError
                | Some b \<Rightarrow>
                    (case inner b of
                       None \<Rightarrow> Inl KeyError
                     | Some current \<Rightarrow>
                         Inr (alignment_extents(key \<mapsto> inner(b \<mapsto> widen current alignment)))))))"

fun accumulate ::
  "'v subread_dict \<Rightarrow> extents \<Rightarrow> cmph5_alignment list \<Rightarrow> py_error + extents" where
  "accumulate subread_dict alignment_extents [] = Inr alignment_extents"
| "accumulate subread_dict alignment_extents (alignment # rest) =
     (case record_extent subread_dict alignment_extents alignment of
        Inl e \<Rightarrow> Inl e
      | Inr alignment_extents' \<Rightarrow> accumulate subread_dict alignment_extents' rest)"

text \<open>Lines 93 to 99: the intervals that one subread with an extent adds to the list of
  its hole, the prefix before the suffix.\<close>

definition extract_affixes :: "bounds \<Rightarrow> bounds \<Rightarrow> int \<Rightarrow> bounds list" where
  "extract_affixes subread_bounds alignment_extent min_affix_size =
     (let prefix_bounds = (fst subread_bounds, fst alignment_extent);
          suffix_bounds = (snd alignment_extent, snd subread_bounds)
      in (if snd prefix_bounds - fst prefix_bounds \<ge> min_affix_size then [prefix_bounds] else [])
         @ (if snd suffix_bounds - fst suffix_bounds \<ge> min_affix_size then [suffix_bounds] else []))"

type_synonym affix_bounds = "(key \<times> bounds list) list"

text \<open>\<open>affix_bounds.setdefault(key, []).append(x)\<close>\<close>

definition setdefault_append :: "key \<Rightarrow> bounds \<Rightarrow> affix_bounds \<Rightarrow> affix_bounds" where
  "setdefault_append key x affix_bounds =
     (case map_of affix_bounds key of
        None \<Rightarrow> AList.update key [x] affix_bounds
      | Some l \<Rightarrow> AList.update key (l @ [x]) affix_bounds)"

text \<open>Lines 88 to 99, the body of the loop over the subreads of one key: the intervals
  that one subread adds, none for a subread whose extent is \<open>None\<close>.\<close>

definition subread_affixes :: "extents \<Rightarrow> int \<Rightarrow> key \<Rightarrow> bounds \<Rightarrow> py_error + bounds list" where
  "subread_affixes alignment_extents min_affix_size key subread_bounds =
     (case alignment_extents key of
        None \<Rightarrow> Inl KeyError
      | Some inner \<Rightarrow>
          (case inner subread_bounds of
             None \<Rightarrow> Inl KeyError
           | Some None \<Rightarrow> Inr []
           | Some (Some alignment_extent) \<Rightarrow>
               Inr (extract_affixes subread_bounds alignment_extent min_affix_size)))"

fun collect_subreads ::
  "extents \<Rightarrow> int \<Rightarrow> key \<Rightarrow> bounds list \<Rightarrow> affix_bounds \<Rightarrow> py_error + affix_bounds" where
  "collect_subreads alignment_extents min_affix_size key [] affix_bounds = Inr affix_bounds"
| "collect_subreads alignment_extents min_affix_size key (subread_bounds # rest) affix_bounds =
     (case subread_affixes alignment_extents min_affix_size key subread_bounds of
        Inl e \<Rightarrow> Inl e
      | Inr affixes \<Rightarrow>
          collect_subreads alignment_extents min_affix_size key rest
            (fold (setdefault_append key) affixes affix_bounds))"

text \<open>Lines 86 to 99, the loop over the keys: \<open>for key in subread_dict\<close> with
  \<open>subread_dict[key]\<close> visits the entries of the dictionary in order.\<close>

fun collect_keys ::
  "extents \<Rightarrow> int \<Rightarrow> 'v subread_dict \<Rightarrow> affix_bounds \<Rightarrow> py_error + affix_bounds" where
  "collect_keys alignment_extents min_affix_size [] affix_bounds = Inr affix_bounds"
| "collect_keys alignment_extents min_affix_size ((key, subs) # rest) affix_bounds =
     (case collect_subreads alignment_extents min_affix_size key (map fst subs) affix_bounds of
        Inl e \<Rightarrow> Inl e
      | Inr affix_bounds' \<Rightarrow> collect_keys alignment_extents min_affix_size rest affix_bounds')"

definition affix_boundaries ::
  "'v subread_dict \<Rightarrow> cmph5_alignment list \<Rightarrow> int \<Rightarrow> py_error + affix_bounds" where
  "affix_boundaries subread_dict cmph5_reader min_affix_size =
     (case accumulate subread_dict (init_extents subread_dict) cmph5_reader of
        Inl e \<Rightarrow> Inl e
      | Inr alignment_extents \<Rightarrow> collect_keys alignment_extents min_affix_size subread_dict [])"

text \<open>The number of affixes found, as \<open>main.py\<close> logs it (line 86):
  \<open>sum([len(k) for k in affix_bounds.itervalues()])\<close>.\<close>

definition total_affixes :: "affix_bounds \<Rightarrow> nat" where
  "total_affixes affix_bounds = sum_list (map (\<lambda>(key, l). length l) affix_bounds)"

subsection \<open>Notions used to state the properties of \<open>affix_boundaries\<close>\<close>

text \<open>The alignments of a stream that \<open>find_subread_entry\<close> locates in a given subread.\<close>

definition located ::
  "'v subread_dict \<Rightarrow> cmph5_alignment list \<Rightarrow> key \<Rightarrow> bounds \<Rightarrow> cmph5_alignment list" where
  "located subread_dict alignments key subread_bounds =
     filter (\<lambda>a. find_subread_entry a subread_dict = (Some key, Some subread_bounds)) alignments"

text \<open>\<open>affix_bounds[key]\<close>, with the empty list for a key that is absent.\<close>

definition affixes_at :: "affix_bounds \<Rightarrow> key \<Rightarrow> bounds list" where
  "affixes_at affix_bounds key = (case map_of affix_bounds key of None \<Rightarrow> [] | Some l \<Rightarrow> l)"

text \<open>The affix intervals of one subread in the words of the specification: nothing when
  no alignment was located in it; otherwise the prefix from the start of the subread to the
  least read start, and the suffix from the greatest read end to the end of the subread,
  each kept iff it is at least \<open>min_affix_size\<close> long.\<close>

definition spec_affixes :: "int \<Rightarrow> bounds \<Rightarrow> cmph5_alignment list \<Rightarrow> bounds list" where
  "spec_affixes min_affix_size subread_bounds la =
     (if la = [] then []
      else (if Min (rStart ` set la) - fst subread_bounds \<ge> min_affix_size
            then [(fst subread_bounds, Min (rStart ` set la))] else [])
         @ (if snd subread_bounds - Max (rEnd ` set la) \<ge> min_affix_size
            then [(Max (rEnd ` set la), snd subread_bounds)] else []))"

text \<open>The extent recorded for a subread, \<open>None\<close> also where the dictionaries have no entry.\<close>

definition extent_at :: "extents \<Rightarrow> key \<Rightarrow> bounds \<Rightarrow> bounds option" where
  "extent_at ext key sb =
     (case ext key of None \<Rightarrow> None | Some inner \<Rightarrow> (case inner sb of None \<Rightarrow> None | Some v \<Rightarrow> v))"

text \<open>\<open>alignment_extents\<close> has an entry for every subread of the dictionary.\<close>

definition covers :: "'v subread_dict \<Rightarrow> extents \<Rightarrow> bool" where
  "covers d ext \<longleftrightarrow>
     (\<forall>key subs. map_of d key = Some subs \<longrightarrow>
        (\<exists>inner. ext key = Some inner \<and> fst ` set subs \<subseteq> dom inner))"

text \<open>What \<open>subread_affixes\<close> returns when it returns, as a total function.\<close>

definition contrib :: "extents \<Rightarrow> int \<Rightarrow> key \<Rightarrow> bounds \<Rightarrow> bounds list" where
  "contrib ext M key sb =
     (case extent_at ext key sb of None \<Rightarrow> [] | Some e \<Rightarrow> extract_affixes sb e M)"

text \<open>Every interval of every list is at least \<open>M\<close> long.\<close>

definition all_long :: "int \<Rightarrow> affix_bounds \<Rightarrow> bool" where
  "all_long M ab \<longleftrightarrow> (\<forall>(key, l) \<in> set ab. \<forall>iv \<in> set l. M \<le> snd iv - fst iv)"

text \<open>The intervals that \<open>affix_boundaries\<close> adds for one subread: the extents of lines 62 to
  80, then the body of the loop of lines 87 to 99 for that subread.\<close>

definition retained_affixes ::
  "'v subread_dict \<Rightarrow> cmph5_alignment list \<Rightarrow> int \<Rightarrow> key \<Rightarrow> bounds \<Rightarrow> py_error + bounds list" where
  "retained_affixes subread_dict cmph5_reader min_affix_size key subread_bounds =
     (case accumulate subread_dict (init_extents subread_dict) cmph5_reader of
        Inl e \<Rightarrow> Inl e
      | Inr alignment_extents \<Rightarrow>
          subread_affixes alignment_extents min_affix_size key subread_bounds)"

subsection \<open>The region table\<close>

text \<open>A row of \<open>/PulseData/Regions\<close>: hole number, region type, start, end, score.\<close>

record region_row =
  holeNumber :: int
  regionType :: int
  regionStart :: int
  regionEnd :: int
  regionScore :: int

text \<open>Modelled from the spec: the region types are constants of the pbcore library, which
  is not among the sources; section 6 of the spec has three kinds of annotation, the
  high-quality region, the insert and the adapter.  The values are those of pbcore; the
  source itself looks the high-quality row up as the one of type 2.\<close>

definition ADAPTER_REGION :: int where "ADAPTER_REGION = 0"

definition INSERT_REGION :: int where "INSERT_REGION = 1"

definition HQ_REGION :: int where "HQ_REGION = 2"

text \<open>\<open>numpy.unique\<close>: the distinct values, ascending.\<close>

definition numpy_unique :: "int list \<Rightarrow> int list" where
  "numpy_unique xs = sort (remdups xs)"

text \<open>\<open>numpy.max\<close>, which raises \<open>ValueError\<close> on an empty array.\<close>

fun numpy_max :: "int list \<Rightarrow> py_error + int" where
  "numpy_max [] = Inl ValueError"
| "numpy_max (x # xs) = Inr (fold max xs x)"

text \<open>Lines 143 to 151: the rows for the sorted affixes of a hole, and the adapter row
  after the last of them.\<close>

fun walk_affixes :: "int \<Rightarrow> int \<Rightarrow> int \<Rightarrow> bounds list \<Rightarrow> region_row list" where
  "walk_affixes hole_number zmw_length previous_bound [] =
     [\<lparr>holeNumber = hole_number, regionType = ADAPTER_REGION,
       regionStart = previous_bound, regionEnd = zmw_length, regionScore = 900\<rparr>]"
| "walk_affixes hole_number zmw_length previous_bound (affix # rest) =
     \<lparr>holeNumber = hole_number, regionType = ADAPTER_REGION,
      regionStart = previous_bound, regionEnd = fst affix, regionScore = 900\<rparr>
     # \<lparr>holeNumber = hole_number, regionType = INSERT_REGION,
        regionStart = fst affix, regionEnd = snd affix, regionScore = - 1\<rparr>
     # walk_affixes hole_number zmw_length (snd affix) rest"

text \<open>Lines 126 to 152, the rows that one hole adds to the output.  The argument
  \<open>affixes\<close> is \<open>affix_bounds[(movie_name, hole_number)]\<close>, or \<open>None\<close> for the \<open>KeyError\<close>
  that the \<open>try\<close> catches; in that branch the \<open>continue\<close> leaves the loop body before
  line 152, so that \<open>hq_row\<close> is not written.  A hole without a row of type 2 raises
  \<open>IndexError\<close> at line 129.\<close>

definition hole_regions ::
  "region_row list \<Rightarrow> int \<Rightarrow> bounds list option \<Rightarrow> py_error + region_row list" where
  "hole_regions original_region_table hole_number affixes =
     (let hole_rows = filter (\<lambda>r. holeNumber r = hole_number) original_region_table
      in case numpy_max (map regionEnd hole_rows) of
           Inl e \<Rightarrow> Inl e
         | Inr zmw_length \<Rightarrow>
             (case filter (\<lambda>r. regionType r = 2) hole_rows of
                [] \<Rightarrow> Inl IndexError
              | hq_row # _ \<Rightarrow>
                  (case affixes of
                     None \<Rightarrow>
                       Inr [\<lparr>holeNumber = hole_number, regionType = HQ_REGION,
                             regionStart = 0, regionEnd = 0, regionScore = 0\<rparr>,
                            \<lparr>holeNumber = hole_number, regionType = ADAPTER_REGION,
                             regionStart = 0, regionEnd = zmw_length, regionScore = 0\<rparr>]
                   | Some affs \<Rightarrow>
                       Inr (walk_affixes hole_number zmw_length 0 (sort affs) @ [hq_row]))))"

text \<open>Lines 125 to 152, the loop over the hole numbers.  \<open>affixes.sort()\<close> sorts the list
  that the caller's dictionary holds in place, tuples in lexicographic order, so the
  dictionary is part of the state.\<close>

fun region_loop ::
  "region_row list \<Rightarrow> string \<Rightarrow> int list \<Rightarrow> region_row list \<Rightarrow> affix_bounds
     \<Rightarrow> py_error + (region_row list \<times> affix_bounds)" where
  "region_loop original_region_table movie_name [] output_region_table affix_bounds =
     Inr (output_region_table, affix_bounds)"
| "region_loop original_region_table movie_name (hole_number # rest) output_region_table affix_bounds =
     (case hole_regions original_region_table hole_number
             (map_of affix_bounds (movie_name, hole_number)) of
        Inl e \<Rightarrow> Inl e
      | Inr rows \<Rightarrow>
          region_loop original_region_table movie_name rest (output_region_table @ rows)
            (case map_of affix_bounds (movie_name, hole_number) of
               None \<Rightarrow> affix_bounds
             | Some affs \<Rightarrow> AList.update (movie_name, hole_number) (sort affs) affix_bounds))"

text \<open>\<open>affix_region_table\<close> returns the new table; the second component is the caller's
  \<open>affix_bounds\<close> after the call.  The coordinates are taken to fit the integer type of the
  table, so that the conversion of line 154 changes no value.\<close>

definition affix_region_table ::
  "region_row list \<Rightarrow> string \<Rightarrow> affix_bounds \<Rightarrow> py_error + (region_row list \<times> affix_bounds)" where
  "affix_region_table original_region_table movie_name affix_bounds =
     region_loop original_region_table movie_name
       (numpy_unique (map holeNumber original_region_table)) [] affix_bounds"

subsection \<open>Notions used to state the properties of \<open>affix_region_table\<close>\<close>

definition rows_of_hole :: "int \<Rightarrow> region_row list \<Rightarrow> region_row list" where
  "rows_of_hole hole_number table = filter (\<lambda>r. holeNumber r = hole_number) table"

definition non_hq_rows :: "region_row list \<Rightarrow> region_row list" where
  "non_hq_rows rows = filter (\<lambda>r. regionType r \<noteq> HQ_REGION) rows"

text \<open>The read length of a hole: the greatest end coordinate of its rows in the original
  table.\<close>

definition read_length :: "region_row list \<Rightarrow> int \<Rightarrow> int" where
  "read_length table hole_number = Max (regionEnd ` set (rows_of_hole hole_number table))"

text \<open>The rows, in this order, tile \<open>[lo, hi)\<close>: the first starts at \<open>lo\<close>, each one ends
  where the next starts and none ends before it starts, and the last ends at \<open>hi\<close>.\<close>

fun tiles :: "int \<Rightarrow> int \<Rightarrow> region_row list \<Rightarrow> bool" where
  "tiles lo hi [] = (lo = hi)"
| "tiles lo hi (r # rs) =
     (regionStart r = lo \<and> regionStart r \<le> regionEnd r \<and> tiles (regionEnd r) hi rs)"

text \<open>No two consecutive rows have the same type.\<close>

fun alternates :: "region_row list \<Rightarrow> bool" where
  "alternates (r # r' # rs) = (regionType r \<noteq> regionType r' \<and> alternates (r' # rs))"
| "alternates rs = True"

text \<open>Two intervals are disjoint when one ends where or before the other starts.  For
  intervals that are not empty this is the absence of overlap in the sense of the
  specification, \<open>intersectRanges\<close> being \<open>None\<close>.\<close>

definition disjoint_intervals :: "bounds \<Rightarrow> bounds \<Rightarrow> bool" where
  "disjoint_intervals a b \<longleftrightarrow> snd a \<le> fst b \<or> snd b \<le> fst a"

fun pairwise_disjoint :: "bounds list \<Rightarrow> bool" where
  "pairwise_disjoint [] = True"
| "pairwise_disjoint (a # rest) =
     ((\<forall>b \<in> set rest. disjoint_intervals a b) \<and> pairwise_disjoint rest)"

text \<open>The affix intervals of a hole are pairwise disjoint intervals within
  \<open>[0, zmw_length)\<close>.\<close>

definition affixes_within :: "int \<Rightarrow> bounds list \<Rightarrow> bool" where
  "affixes_within zmw_length affs \<longleftrightarrow>
     (\<forall>a \<in> set affs. 0 \<le> fst a \<and> fst a \<le> snd a \<and> snd a \<le> zmw_length)
     \<and> pairwise_disjoint affs"

text \<open>The intervals, in this order, go from left to right from \<open>p\<close> to \<open>L\<close>.\<close>

fun chain :: "int \<Rightarrow> bounds list \<Rightarrow> int \<Rightarrow> bool" where
  "chain p [] L = (p \<le> L)"
| "chain p (a # rest) L = (p \<le> fst a \<and> fst a \<le> snd a \<and> chain (snd a) rest L)"

text \<open>The dictionary after the body of the loop has run for one hole.\<close>

definition sort_entry :: "string \<Rightarrow> int \<Rightarrow> affix_bounds \<Rightarrow> affix_bounds" where
  "sort_entry movie h ab =
     (case map_of ab (movie, h) of None \<Rightarrow> ab | Some affs \<Rightarrow> AList.update (movie, h) (sort affs) ab)"

section \<open>smrtview\_output.py\<close>

text \<open>The dictionary that \<open>alignment_to_output_dict\<close> builds, with its fixed keys.\<close>

record output_dict =
  read_name :: string
  subread_length :: int
  subread_start :: int
  subread_end :: int
  ref_name :: string
  strand :: int
  target_start :: int
  target_end :: int
  score :: int
  pct_similarity :: real
  map_qv :: int

text \<open>\<open>str\<close> of an integer.\<close>

fun str_nat :: "nat \<Rightarrow> string" where
  "str_nat n =
     (if n < 10 then [''0123456789'' ! n] else str_nat (n div 10) @ [''0123456789'' ! (n mod 10)])"

declare str_nat.simps [simp del]

definition str_int :: "int \<Rightarrow> string" where
  "str_int i = (if i < 0 then ''-'' @ str_nat (nat (- i)) else str_nat (nat i))"

text \<open>\<open>round(x, 4)\<close> of Python 2, halves away from zero, on the real numbers; the binary
  representation of a float is outside the model.\<close>

definition round4 :: "real \<Rightarrow> real" where
  "round4 x =
     (if 0 \<le> x then of_int \<lfloor>x * 10000 + 1 / 2\<rfloor> / 10000
      else - of_int \<lfloor>- x * 10000 + 1 / 2\<rfloor> / 10000)"

definition alignment_to_output_dict :: "cmph5_alignment \<Rightarrow> bounds \<Rightarrow> output_dict" where
  "alignment_to_output_dict cmph5_alignment subread_bounds =
     \<lparr>read_name = movieName cmph5_alignment @ ''/'' @ str_int (HoleNumber cmph5_alignment)
         @ ''/'' @ str_int (fst subread_bounds) @ ''_'' @ str_int (snd subread_bounds),
      subread_length = snd subread_bounds - fst subread_bounds,
      subread_start = rStart cmph5_alignment - fst subread_bounds,
      subread_end = rEnd cmph5_alignment - fst subread_bounds,
      ref_name = referenceName cmph5_alignment,
      strand = RCRefStrand cmph5_alignment,
      target_start = tStart cmph5_alignment,
      target_end = tEnd cmph5_alignment,
      score = - 100000,
      pct_similarity = round4 (similarity cmph5_alignment),
      map_qv = MapQV cmph5_alignment\<rparr>"

text \<open>The alignments of one subread: a dictionary from \<open>'prefix'\<close>, \<open>'primary'\<close> and
  \<open>'suffix'\<close> to output dictionaries.  In \<open>all_subread_dict\<close> the value of a subread is
  \<open>None\<close> until a primary alignment is stored.\<close>

type_synonym role_map = "(string \<times> output_dict) list"

type_synonym all_subread_dict = "role_map option subread_dict"

text \<open>The fields of a line before \<open>str\<close> and the join with tabs.\<close>

datatype cell = CStr string | CInt int | CReal real

definition ordered_values :: "output_dict \<Rightarrow> cell list" where
  "ordered_values d =
     [CInt (subread_start d), CInt (subread_end d), CStr (ref_name d), CInt (strand d),
      CInt (target_start d), CInt (target_end d), CInt (score d), CReal (pct_similarity d),
      CInt (map_qv d)]"

text \<open>\<open>output_line\<close>: \<open>subread_alns['primary']\<close> raises \<open>KeyError\<close> without a primary
  alignment.\<close>

definition output_line :: "role_map \<Rightarrow> py_error + cell list" where
  "output_line subread_alns =
     (case map_of subread_alns ''primary'' of
        None \<Rightarrow> Inl KeyError
      | Some primary \<Rightarrow>
          Inr ([CStr (read_name primary), CInt (subread_length primary)]
               @ concat (map (\<lambda>affix_type.
                     case map_of subread_alns affix_type of
                       None \<Rightarrow> replicate 9 (CStr ''_'')
                     | Some d \<Rightarrow> ordered_values d)
                   [''prefix'', ''primary'', ''suffix''])))"

text \<open>The subreads of a dictionary in the order of the two nested loops
  \<open>for key in subread_dict: for subread_bounds in subread_dict[key]\<close>.\<close>

definition all_subreads :: "'v subread_dict \<Rightarrow> (bounds \<times> 'v) list" where
  "all_subreads subread_dict = concat (map snd subread_dict)"

definition count_subreads :: "all_subread_dict \<Rightarrow> nat" where
  "count_subreads subread_dict =
     length (filter (\<lambda>(subread_bounds, subread_alns). subread_alns \<noteq> None)
               (all_subreads subread_dict))"

text \<open>\<open>get_full_version\<close> of the package: version \<open>(0, 4)\<close> and change list 138434.\<close>

definition get_full_version :: string where
  "get_full_version = ''0.4.138434''"

text \<open>A line of the report without its newline: a header line, or the fields of a data
  line.\<close>

datatype line = Text string | Row "cell list"

definition OUTPUT_COLUMNS :: "string list" where
  "OUTPUT_COLUMNS =
     [''read'', ''subreadLength'',
      ''prologSubreadStart'', ''prologSubreadEnd'', ''prologRefid'', ''prologTstrand'',
      ''prologStart'', ''prologEnd'', ''prologScore'', ''prologPctsimilarity'', ''prologMapqv'',
      ''primarySubreadStart'', ''primarySubreadEnd'', ''primaryRefid'', ''primaryTstrand'',
      ''primaryStart'', ''primaryEnd'', ''primaryScore'', ''primaryPctsimilarity'', ''primaryMapqv'',
      ''epilogSubreadStart'', ''epilogSubreadEnd'', ''epilogRefid'', ''epilogTstrand'',
      ''epilogStart'', ''epilogEnd'', ''epilogScore'', ''epilogPctsimilarity'', ''epilogMapqv'']"

fun join_tab :: "string list \<Rightarrow> string" where
  "join_tab [] = []"
| "join_tab [s] = s"
| "join_tab (s # t # rest) = s @ [CHR 0x09] @ join_tab (t # rest)"

text \<open>Lines 87 to 93 of \<open>write_split_reads_file\<close>, the data lines.\<close>

fun write_rows :: "(bounds \<times> role_map option) list \<Rightarrow> py_error + line list" where
  "write_rows [] = Inr []"
| "write_rows ((subread_bounds, None) # rest) = write_rows rest"
| "write_rows ((subread_bounds, Some subread_alns) # rest) =
     (case output_line subread_alns of
        Inl e \<Rightarrow> Inl e
      | Inr cells \<Rightarrow>
          (case write_rows rest of Inl e \<Rightarrow> Inl e | Inr rows \<Rightarrow> Inr (Row cells # rows)))"

text \<open>\<open>write_split_reads_file\<close>: the lines written to the file, in order.\<close>

definition write_split_reads_file :: "all_subread_dict \<Rightarrow> py_error + line list" where
  "write_split_reads_file subread_dict =
     (let num_total_subreads = count_subreads subread_dict
      in case write_rows (all_subreads subread_dict) of
           Inl e \<Rightarrow> Inl e
         | Inr rows \<Rightarrow>
             Inr ([Text (''##pbbridgemapper version '' @ get_full_version),
                   Text (''##Total Subreads: '' @ str_nat num_total_subreads),
                   Text (''##'' @ join_tab OUTPUT_COLUMNS)] @ rows))"

text \<open>\<open>remove_nonunique_alignments\<close>, lines 102 to 105: the loop \<open>for affix_type in
  affix_dict\<close> pops from the dictionary that it iterates.  The iterator of a dictionary
  compares the size of the dictionary with the size at its creation each time the next key
  is asked for, also when no key is left, and raises \<open>RuntimeError\<close> when they differ.  The
  second argument tells whether a key has been popped.\<close>

fun scan_roles :: "string list \<Rightarrow> bool \<Rightarrow> role_map \<Rightarrow> py_error + role_map" where
  "scan_roles keys True affix_dict = Inl RuntimeError"
| "scan_roles [] False affix_dict = Inr affix_dict"
| "scan_roles (affix_type # keys) False affix_dict =
     (if affix_type \<in> {''prefix'', ''suffix''} then
        (case map_of affix_dict affix_type of
           None \<Rightarrow> Inl KeyError
         | Some d \<Rightarrow>
             if map_qv d < 254 then scan_roles keys True (AList.delete affix_type affix_dict)
             else scan_roles keys False affix_dict)
      else scan_roles keys False affix_dict)"

text \<open>Lines 101 to 105 for one subread; iterating \<open>None\<close> raises \<open>TypeError\<close>.\<close>

fun filter_roles :: "role_map option \<Rightarrow> py_error + role_map option" where
  "filter_roles None = Inl TypeError"
| "filter_roles (Some affix_dict) =
     (case scan_roles (map fst affix_dict) False affix_dict of
        Inl e \<Rightarrow> Inl e
      | Inr affix_dict' \<Rightarrow> Inr (Some affix_dict'))"

fun remove_nonunique_subreads ::
  "(bounds \<times> role_map option) list \<Rightarrow> py_error + (bounds \<times> role_map option) list" where
  "remove_nonunique_subreads [] = Inr []"
| "remove_nonunique_subreads ((bounds, affix_dict) # rest) =
     (case filter_roles affix_dict of
        Inl e \<Rightarrow> Inl e
      | Inr affix_dict' \<Rightarrow>
          (case remove_nonunique_subreads rest of
             Inl e \<Rightarrow> Inl e
           | Inr rest' \<Rightarrow> Inr ((bounds, affix_dict') # rest')))"

fun remove_nonunique_alignments :: "all_subread_dict \<Rightarrow> py_error + all_subread_dict" where
  "remove_nonunique_alignments [] = Inr []"
| "remove_nonunique_alignments ((key, subs) # rest) =
     (case remove_nonunique_subreads subs of
        Inl e \<Rightarrow> Inl e
      | Inr subs' \<Rightarrow>
          (case remove_nonunique_alignments rest of
             Inl e \<Rightarrow> Inl e
           | Inr rest' \<Rightarrow> Inr ((key, subs') # rest')))"

section \<open>main.py: \<open>create_pbbridgemapper_output\<close>\<close>

text \<open>A local variable of the function is unbound until it is assigned.\<close>

datatype 'a local_var = Unbound | Bound 'a

text \<open>The two variables of the first loop: line 191 assigns \<open>existing_alignment\<close>, line
  194 assigns \<open>existing_aligment\<close>, and line 196 reads the latter.\<close>

record locals =
  existing_alignment :: "output_dict option local_var"
  existing_aligment :: "output_dict option local_var"

text \<open>Lines 190 to 194.\<close>

definition read_existing :: "role_map option \<Rightarrow> locals \<Rightarrow> py_error + locals" where
  "read_existing slot loc =
     (case slot of
        Some subread_alns \<Rightarrow>
          (case map_of subread_alns ''primary'' of
             None \<Rightarrow> Inl KeyError
           | Some primary \<Rightarrow> Inr (loc\<lparr>existing_alignment := Bound (Some primary)\<rparr>))
      | None \<Rightarrow> Inr (loc\<lparr>existing_aligment := Bound None\<rparr>))"

text \<open>Lines 196 and 197: \<open>existing_aligment is None or alignment.mapQV >
  existing_alignment['map_qv']\<close>, the right operand evaluated only when the left is false.\<close>

definition replace_test :: "locals \<Rightarrow> cmph5_alignment \<Rightarrow> py_error + bool" where
  "replace_test loc alignment =
     (case existing_aligment loc of
        Unbound \<Rightarrow> Inl UnboundLocalError
      | Bound None \<Rightarrow> Inr True
      | Bound (Some _) \<Rightarrow>
          (case existing_alignment loc of
             Unbound \<Rightarrow> Inl UnboundLocalError
           | Bound None \<Rightarrow> Inl TypeError
           | Bound (Some existing) \<Rightarrow> Inr (MapQV alignment > map_qv existing)))"

text \<open>Lines 185 to 201, the body of the loop over the primary alignments.
  \<open>all_subread_dict[key][overlapping_bounds]\<close> raises \<open>KeyError\<close> when
  \<open>overlapping_bounds\<close> is \<open>None\<close>.\<close>

definition primary_step ::
  "all_subread_dict \<times> locals \<Rightarrow> cmph5_alignment \<Rightarrow> py_error + (all_subread_dict \<times> locals)" where
  "primary_step state alignment =
     (let (all_subread_dict, loc) = state
      in case find_subread_entry alignment all_subread_dict of
           (None, _) \<Rightarrow> Inr (all_subread_dict, loc)
         | (Some key, overlapping_bounds) \<Rightarrow>
             (case map_of all_subread_dict key of
                None \<Rightarrow> Inl KeyError
              | Some subs \<Rightarrow>
                  (case overlapping_bounds of
                     None \<Rightarrow> Inl KeyError
                   | Some b \<Rightarrow>
                       (case map_of subs b of
                          None \<Rightarrow> Inl KeyError
                        | Some slot \<Rightarrow>
                            (case read_existing slot loc of
                               Inl e \<Rightarrow> Inl e
                             | Inr loc' \<Rightarrow>
                                 (case replace_test loc' alignment of
                                    Inl e \<Rightarrow> Inl e
                                  | Inr True \<Rightarrow>
                                      Inr (AList.update key
                                             (AList.update b
                                                (Some [(''primary'', alignment_to_output_dict alignment b)])
                                                subs)
                                             all_subread_dict,
                                           loc')
                                  | Inr False \<Rightarrow> Inr (all_subread_dict, loc')))))))"

fun primary_pass ::
  "all_subread_dict \<times> locals \<Rightarrow> cmph5_alignment list \<Rightarrow> py_error + (all_subread_dict \<times> locals)" where
  "primary_pass state [] = Inr state"
| "primary_pass state (alignment # rest) =
     (case primary_step state alignment of
        Inl e \<Rightarrow> Inl e
      | Inr state' \<Rightarrow> primary_pass state' rest)"

text \<open>Lines 227 to 232.\<close>

definition affix_type_of :: "output_dict \<Rightarrow> output_dict \<Rightarrow> string option" where
  "affix_type_of alignment_dict primary_dict =
     (if subread_end alignment_dict \<le> subread_start primary_dict then Some ''prefix''
      else if subread_start alignment_dict \<ge> subread_end primary_dict then Some ''suffix''
      else None)"

text \<open>Lines 212 to 243, the body of the loop over the affix alignments.\<close>

definition affix_step :: "all_subread_dict \<Rightarrow> cmph5_alignment \<Rightarrow> py_error + all_subread_dict" where
  "affix_step all_subread_dict alignment =
     (case find_subread_entry alignment all_subread_dict of
        (None, _) \<Rightarrow> Inr all_subread_dict
      | (Some key, overlapping_bounds) \<Rightarrow>
          (case map_of all_subread_dict key of
             None \<Rightarrow> Inl KeyError
           | Some subs \<Rightarrow>
               (case overlapping_bounds of
                  None \<Rightarrow> Inl KeyError
                | Some b \<Rightarrow>
                    (case map_of subs b of
                       None \<Rightarrow> Inl KeyError
                     | Some None \<Rightarrow> Inr all_subread_dict
                     | Some (Some subread_alns) \<Rightarrow>
                         (let alignment_dict = alignment_to_output_dict alignment b
                          in case map_of subread_alns ''primary'' of
                               None \<Rightarrow> Inl KeyError
                             | Some primary_dict \<Rightarrow>
                                 (case affix_type_of alignment_dict primary_dict of
                                    None \<Rightarrow> Inr all_subread_dict
                                  | Some affix_type \<Rightarrow>
                                      (if (case map_of subread_alns affix_type of
                                             None \<Rightarrow> True
                                           | Some existing \<Rightarrow> MapQV alignment > map_qv existing)
                                       then Inr (AList.update key
                                                   (AList.update b
                                                      (Some (AList.update affix_type alignment_dict
                                                               subread_alns))
                                                      subs)
                                                   all_subread_dict)
                                       else Inr all_subread_dict)))))))"

fun affix_pass :: "all_subread_dict \<Rightarrow> cmph5_alignment list \<Rightarrow> py_error + all_subread_dict" where
  "affix_pass all_subread_dict [] = Inr all_subread_dict"
| "affix_pass all_subread_dict (alignment # rest) =
     (case affix_step all_subread_dict alignment of
        Inl e \<Rightarrow> Inl e
      | Inr all_subread_dict' \<Rightarrow> affix_pass all_subread_dict' rest)"

text \<open>Lines 184 to 243: the two passes, the result being \<open>all_subread_dict\<close> at line 245.
  The argument is the dictionary that lines 174 to 179 build.\<close>

definition aggregate ::
  "all_subread_dict \<Rightarrow> cmph5_alignment list \<Rightarrow> cmph5_alignment list \<Rightarrow> py_error + all_subread_dict" where
  "aggregate all_subread_dict primary_cmph5_reader affix_cmph5_reader =
     (case primary_pass (all_subread_dict, \<lparr>existing_alignment = Unbound, existing_aligment = Unbound\<rparr>)
             primary_cmph5_reader of
        Inl e \<Rightarrow> Inl e
      | Inr (all_subread_dict', loc) \<Rightarrow> affix_pass all_subread_dict' affix_cmph5_reader)"

text \<open>\<open>create_pbbridgemapper_output\<close> from line 181 on: the lines of the report.\<close>

definition create_pbbridgemapper_output ::
  "all_subread_dict \<Rightarrow> cmph5_alignment list \<Rightarrow> cmph5_alignment list \<Rightarrow> bool
     \<Rightarrow> py_error + line list" where
  "create_pbbridgemapper_output all_subread_dict primary_cmph5_reader affix_cmph5_reader unique_only =
     (case aggregate all_subread_dict primary_cmph5_reader affix_cmph5_reader of
        Inl e \<Rightarrow> Inl e
      | Inr d \<Rightarrow>
          (case (if unique_only then remove_nonunique_alignments d else Inr d) of
             Inl e \<Rightarrow> Inl e
           | Inr d' \<Rightarrow> write_split_reads_file d'))"

subsection \<open>Notions used to state the properties of the aggregation and the report\<close>

text \<open>\<open>all_subread_dict[key][subread_bounds][role]\<close>, \<open>None\<close> where an entry is missing.\<close>

definition role_at :: "all_subread_dict \<Rightarrow> key \<Rightarrow> bounds \<Rightarrow> string \<Rightarrow> output_dict option" where
  "role_at d key subread_bounds role =
     (case map_of d key of
        None \<Rightarrow> None
      | Some subs \<Rightarrow>
          (case map_of subs subread_bounds of
             None \<Rightarrow> None
           | Some None \<Rightarrow> None
           | Some (Some subread_alns) \<Rightarrow> map_of subread_alns role))"

text \<open>The number of subreads whose role map holds a primary role.\<close>

definition has_primary :: "bounds \<times> role_map option \<Rightarrow> bool" where
  "has_primary entry =
     (case snd entry of None \<Rightarrow> False | Some subread_alns \<Rightarrow> map_of subread_alns ''primary'' \<noteq> None)"

definition with_primary :: "all_subread_dict \<Rightarrow> nat" where
  "with_primary d = length (filter has_primary (all_subreads d))"

text \<open>The data lines of a report.\<close>

fun is_row :: "line \<Rightarrow> bool" where
  "is_row (Row cells) = True"
| "is_row (Text s) = False"

definition data_rows :: "line list \<Rightarrow> line list" where
  "data_rows lines = filter is_row lines"

text \<open>The test of line 103.\<close>

definition is_affix_type :: "string \<Rightarrow> bool" where
  "is_affix_type k \<longleftrightarrow> k \<in> {''prefix'', ''suffix''}"

text \<open>A subread has a role map, and no prefix or suffix in it has a map quality below 254.\<close>

definition unique_ok :: "bounds \<times> role_map option \<Rightarrow> bool" where
  "unique_ok entry \<longleftrightarrow>
     (\<exists>rm. snd entry = Some rm \<and>
        (\<forall>k \<in> fst ` set rm. is_affix_type k \<longrightarrow> (\<exists>d. map_of rm k = Some d \<and> 254 \<le> map_qv d)))"

text \<open>Every subread with a role map has a primary role in it.\<close>

definition slots_ok :: "all_subread_dict \<Rightarrow> bool" where
  "slots_ok d \<longleftrightarrow> (\<forall>entry \<in> set (all_subreads d). snd entry \<noteq> None \<longrightarrow> has_primary entry)"

text \<open>Two dictionaries have the same keys and, under each key, the same subread bounds in
  the same order.\<close>

definition same_index :: "'v subread_dict \<Rightarrow> 'w subread_dict \<Rightarrow> bool" where
  "same_index d d' \<longleftrightarrow>
     (\<forall>key. map_option (map fst) (map_of d' key) = map_option (map fst) (map_of d key))"

text \<open>\<open>all_subread_dict[key][b] = v\<close>, where \<open>subs\<close> is \<open>all_subread_dict[key]\<close>.\<close>

definition set_slot :: "key \<Rightarrow> bounds \<Rightarrow> 'v \<Rightarrow> (bounds \<times> 'v) list \<Rightarrow> 'v subread_dict \<Rightarrow> 'v subread_dict" where
  "set_slot key b v subs d = AList.update key (AList.update b v subs) d"

text \<open>The invariant of the first pass: once a role map exists, \<open>existing_aligment\<close> has been
  assigned \<open>None\<close>.\<close>

definition primary_inv :: "all_subread_dict \<Rightarrow> locals \<Rightarrow> bool" where
  "primary_inv d loc \<longleftrightarrow>
     slots_ok d
     \<and> (existing_aligment loc = Bound None
        \<or> (existing_aligment loc = Unbound \<and> (\<forall>entry \<in> set (all_subreads d). snd entry = None)))"

text \<open>Lines 240 to 243: the record of a role after one more alignment of that role.\<close>

definition keep_better :: "output_dict option \<Rightarrow> output_dict \<Rightarrow> output_dict option" where
  "keep_better existing new =
     (case existing of
        None \<Rightarrow> Some new
      | Some e \<Rightarrow> if map_qv new > map_qv e then Some new else Some e)"

text \<open>The alignments of a stream that are located in a subread and that lines 227 to 232
  classify as the given role, relative to the primary alignment of the subread.\<close>

definition classified ::
  "all_subread_dict \<Rightarrow> cmph5_alignment list \<Rightarrow> key \<Rightarrow> bounds \<Rightarrow> string \<Rightarrow> cmph5_alignment list" where
  "classified d alignments key b role =
     filter (\<lambda>a. find_subread_entry a d = (Some key, Some b)
                \<and> (case role_at d key b ''primary'' of
                      None \<Rightarrow> False
                    | Some p \<Rightarrow> affix_type_of (alignment_to_output_dict a b) p = Some role))
       alignments"

text \<open>The dictionary as lines 174 to 179 build it: every subread has the value \<open>None\<close>.\<close>

definition fresh :: "all_subread_dict \<Rightarrow> bool" where
  "fresh d \<longleftrightarrow> (\<forall>entry \<in> set (all_subreads d). snd entry = None)"

text \<open>Some alignment of the stream has its key in the dictionary and overlaps no subread of
  that key.\<close>

definition in_gap :: "'v subread_dict \<Rightarrow> cmph5_alignment list \<Rightarrow> bool" where
  "in_gap d alignments \<longleftrightarrow>
     (\<exists>a \<in> set alignments. \<exists>key. find_subread_entry a d = (Some key, None))"

subsection \<open>Example inputs\<close>

definition mk_alignment :: "int \<Rightarrow> int \<Rightarrow> int \<Rightarrow> int \<Rightarrow> cmph5_alignment" where
  "mk_alignment hole rs re qv =
     \<lparr>movieName = ''m1'', HoleNumber = hole, rStart = rs, rEnd = re, referenceName = ''chr1'',
      RCRefStrand = 0, tStart = 5000 + rs, tEnd = 5000 + re, similarity = 1, MapQV = qv\<rparr>"

text \<open>One hole with the subreads \<open>(0, 1000)\<close> and \<open>(1100, 2000)\<close>, as
  \<open>affixes.subread_dictionary\<close> builds it: every value is \<open>None\<close>.\<close>

definition example_dict :: "'v option subread_dict" where
  "example_dict = [((''m1'', 1), [((0, 1000), None), ((1100, 2000), None)])]"

text \<open>A table with two holes: hole 7 has one insert, hole 9 has two.\<close>

definition example_table :: "region_row list" where
  "example_table =
     [\<lparr>holeNumber = 9, regionType = 1, regionStart = 0, regionEnd = 1000, regionScore = - 1\<rparr>,
      \<lparr>holeNumber = 9, regionType = 0, regionStart = 1000, regionEnd = 1100, regionScore = 800\<rparr>,
      \<lparr>holeNumber = 9, regionType = 1, regionStart = 1100, regionEnd = 2000, regionScore = - 1\<rparr>,
      \<lparr>holeNumber = 9, regionType = 2, regionStart = 20, regionEnd = 1900, regionScore = 850\<rparr>,
      \<lparr>holeNumber = 7, regionType = 1, regionStart = 0, regionEnd = 600, regionScore = - 1\<rparr>,
      \<lparr>holeNumber = 7, regionType = 2, regionStart = 10, regionEnd = 590, regionScore = 820\<rparr>]"

definition example_affix_bounds :: affix_bounds where
  "example_affix_bounds = [((''m1'', 9), [(1100, 1300), (0, 100), (950, 1000)])]"

text \<open>What \<open>affix_region_table\<close> returns for them.\<close>

definition example_output :: "region_row list" where
  "example_output =
     [\<lparr>holeNumber = 7, regionType = 2, regionStart = 0, regionEnd = 0, regionScore = 0\<rparr>,
      \<lparr>holeNumber = 7, regionType = 0, regionStart = 0, regionEnd = 600, regionScore = 0\<rparr>,
      \<lparr>holeNumber = 9, regionType = 0, regionStart = 0, regionEnd = 0, regionScore = 900\<rparr>,
      \<lparr>holeNumber = 9, regionType = 1, regionStart = 0, regionEnd = 100, regionScore = - 1\<rparr>,
      \<lparr>holeNumber = 9, regionType = 0, regionStart = 100, regionEnd = 950, regionScore = 900\<rparr>,
      \<lparr>holeNumber = 9, regionType = 1, regionStart = 950, regionEnd = 1000, regionScore = - 1\<rparr>,
      \<lparr>holeNumber = 9, regionType = 0, regionStart = 1000, regionEnd = 1100, regionScore = 900\<rparr>,
      \<lparr>holeNumber = 9, regionType = 1, regionStart = 1100, regionEnd = 1300, regionScore = - 1\<rparr>,
      \<lparr>holeNumber = 9, regionType = 0, regionStart = 1300, regionEnd = 2000, regionScore = 900\<rparr>,
      \<lparr>holeNumber = 9, regionType = 2, regionStart = 20, regionEnd = 1900, regionScore = 850\<rparr>]"

text \<open>A dictionary after aggregation: the first subread has a primary and a suffix
  alignment, the second has none.\<close>

definition example_roles :: all_subread_dict where
  "example_roles =
     [((''m1'', 1),
       [((0, 1000),
         Some [(''primary'', alignment_to_output_dict (mk_alignment 1 100 900 254) (0, 1000)),
               (''suffix'', alignment_to_output_dict (mk_alignment 1 900 990 200) (0, 1000))]),
        ((1100, 2000), None)])]"

definition example_report :: "line list" where
  "example_report =
     [Text (''##pbbridgemapper version '' @ get_full_version),
      Text (''##Total Subreads: '' @ str_nat 1),
      Text (''##'' @ join_tab OUTPUT_COLUMNS),
      Row ([CStr (read_name (alignment_to_output_dict (mk_alignment 1 100 900 254) (0, 1000))),
            CInt (subread_length (alignment_to_output_dict (mk_alignment 1 100 900 254) (0, 1000)))]
           @ replicate 9 (CStr ''_'')
           @ ordered_values (alignment_to_output_dict (mk_alignment 1 100 900 254) (0, 1000))
           @ ordered_values (alignment_to_output_dict (mk_alignment 1 900 990 200) (0, 1000)))]"

section \<open>Properties of \<open>affix_boundaries\<close>\<close>

lemma find_subread_entry_cases:
  "find_subread_entry a d = (None, None) \<and> map_of d (movieName a, HoleNumber a) = None
   \<or> (\<exists>subs. map_of d (movieName a, HoleNumber a) = Some subs \<and>
         (find_subread_entry a d = (Some (movieName a, HoleNumber a), None)
          \<or> (\<exists>b \<in> fst ` set subs. find_subread_entry a d = (Some (movieName a, HoleNumber a), Some b))))"
proof (cases "map_of d (movieName a, HoleNumber a)")
  case None
  then show ?thesis by (simp add: find_subread_entry_def)
next
  case (Some subs)
  show ?thesis
  proof (cases "List.find (\<lambda>sb. intersectRanges (rStart a, rEnd a) sb \<noteq> None) (map fst subs)")
    case None
    with Some show ?thesis by (simp add: find_subread_entry_def)
  next
    case (Some b)
    then have "b \<in> fst ` set subs"
      by (auto simp: find_Some_iff)
    with Some \<open>map_of d _ = Some subs\<close> show ?thesis
      by (simp add: find_subread_entry_def)
  qed
qed

lemma find_Some_Some:
  assumes "find_subread_entry a d = (Some key, Some b)"
  shows "\<exists>subs. map_of d key = Some subs \<and> b \<in> fst ` set subs \<and> intersectRanges (rStart a, rEnd a) b \<noteq> None"
  using assms
  by (auto simp: find_subread_entry_def Let_def find_Some_iff split: option.splits)

lemma record_extent_Inr:
  assumes "covers d ext" "record_extent d ext a = Inr ext'"
  shows "covers d ext' \<and>
     (\<forall>key sb. extent_at ext' key sb =
        (if find_subread_entry a d = (Some key, Some sb) then widen (extent_at ext key sb) a
         else extent_at ext key sb))"
proof (cases "find_subread_entry a d")
  case (Pair ok ob)
  show ?thesis
  proof (cases ok)
    case None
    with Pair assms show ?thesis by (auto simp: record_extent_def)
  next
    case (Some key)
    with Pair assms obtain inner b current where
      i: "ext key = Some inner" and b: "ob = Some b" and c: "inner b = Some current"
      and e: "ext' = ext(key \<mapsto> inner(b \<mapsto> widen current a))"
      by (auto simp: record_extent_def split: option.splits)
    have cov: "covers d ext'"
      unfolding covers_def
    proof (intro allI impI)
      fix key' subs
      assume m: "map_of d key' = Some subs"
      with assms(1) obtain inner' where i': "ext key' = Some inner'"
        and s: "fst ` set subs \<subseteq> dom inner'"
        unfolding covers_def by blast
      show "\<exists>inner. ext' key' = Some inner \<and> fst ` set subs \<subseteq> dom inner"
      proof (cases "key' = key")
        case True
        with i i' have "inner' = inner" by simp
        with s True show ?thesis unfolding e by auto
      next
        case False
        with i' s show ?thesis unfolding e by auto
      qed
    qed
    have "\<forall>key' sb. extent_at ext' key' sb =
        (if (key', sb) = (key, b) then widen (extent_at ext key' sb) a else extent_at ext key' sb)"
      using i c unfolding e extent_at_def by auto
    with cov Pair Some b show ?thesis by auto
  qed
qed

lemma record_extent_Inl:
  assumes "covers d ext"
  shows "record_extent d ext a = Inl e \<longleftrightarrow>
     e = KeyError \<and> (\<exists>key. find_subread_entry a d = (Some key, None))"
proof -
  let ?k = "(movieName a, HoleNumber a)"
  from find_subread_entry_cases[of a d] consider
    (none) "find_subread_entry a d = (None, None)"
  | (gap) subs where "map_of d ?k = Some subs" "find_subread_entry a d = (Some ?k, None)"
  | (hit) subs b where "map_of d ?k = Some subs" "b \<in> fst ` set subs"
      "find_subread_entry a d = (Some ?k, Some b)"
    by blast
  then show ?thesis
  proof cases
    case none
    then show ?thesis by (simp add: record_extent_def)
  next
    case gap
    with assms obtain inner where "ext ?k = Some inner"
      unfolding covers_def by blast
    with gap show ?thesis by (auto simp: record_extent_def)
  next
    case hit
    with assms obtain inner where "ext ?k = Some inner" "fst ` set subs \<subseteq> dom inner"
      unfolding covers_def by blast
    with hit obtain current where "inner b = Some current" by blast
    with hit \<open>ext ?k = Some inner\<close> show ?thesis by (simp add: record_extent_def)
  qed
qed

lemma accumulate_Inr:
  assumes "covers d ext" "accumulate d ext as = Inr ext'"
  shows "covers d ext' \<and>
     (\<forall>key sb. extent_at ext' key sb = foldl widen (extent_at ext key sb) (located d as key sb))"
  using assms
proof (induction as arbitrary: ext)
  case Nil
  then show ?case by (simp add: located_def)
next
  case (Cons a as)
  from Cons.prems(2) obtain ext1 where
    s: "record_extent d ext a = Inr ext1" and r: "accumulate d ext1 as = Inr ext'"
    by (auto split: sum.splits)
  from record_extent_Inr[OF Cons.prems(1) s] Cons.IH[OF _ r]
  show ?case by (auto simp: located_def)
qed

lemma accumulate_Inl:
  assumes "covers d ext"
  shows "accumulate d ext as = Inl e \<longleftrightarrow>
     e = KeyError \<and> (\<exists>a \<in> set as. \<exists>key. find_subread_entry a d = (Some key, None))"
  using assms
proof (induction as arbitrary: ext)
  case Nil
  then show ?case by simp
next
  case (Cons a as)
  show ?case
  proof (cases "record_extent d ext a")
    case (Inl e')
    with record_extent_Inl[OF Cons.prems, of a e'] show ?thesis by auto
  next
    case (Inr ext1)
    have "\<not> (\<exists>key. find_subread_entry a d = (Some key, None))"
      using record_extent_Inl[OF Cons.prems, of a KeyError] Inr by auto
    with Inr record_extent_Inr[OF Cons.prems Inr] Cons.IH[of ext1] show ?thesis by auto
  qed
qed

lemma init_extents_apply:
  "init_extents d key =
     map_option (\<lambda>subs. map_of (map (\<lambda>(subread_bounds, _). (subread_bounds, None)) subs)) (map_of d key)"
  unfolding init_extents_def by (simp add: map_of_map)

lemma covers_init: "covers d (init_extents d)"
  unfolding covers_def
  by (auto simp: init_extents_apply dom_map_of_conv_image_fst image_image case_prod_unfold)

lemma extent_at_init: "extent_at (init_extents d) key sb = None"
  unfolding extent_at_def
  by (auto simp: init_extents_apply split: option.splits dest!: map_of_SomeD)


lemma Min_insert_min:
  "finite S \<Longrightarrow> Min (insert (min x y) S) = min (x::int) (Min (insert y S))"
  by (cases "S = {}") (simp_all add: min.assoc)

lemma Max_insert_max:
  "finite S \<Longrightarrow> Max (insert (max x y) S) = max (x::int) (Max (insert y S))"
  by (cases "S = {}") (simp_all add: max.assoc)

lemma foldl_widen_Some:
  "foldl widen (Some (lo, hi)) la =
     Some (Min (insert lo (rStart ` set la)), Max (insert hi (rEnd ` set la)))"
proof (induction la arbitrary: lo hi)
  case Nil
  then show ?case by simp
next
  case (Cons a la)
  have "Min (insert (min (rStart a) lo) (rStart ` set la)) = Min (insert lo (insert (rStart a) (rStart ` set la)))"
    by (simp add: Min_insert_min min.commute)
  moreover have "Max (insert (max (rEnd a) hi) (rEnd ` set la)) = Max (insert hi (insert (rEnd a) (rEnd ` set la)))"
    by (simp add: Max_insert_max max.commute)
  ultimately show ?case using Cons.IH by simp
qed

lemma foldl_widen_None:
  "foldl widen None la =
     (if la = [] then None else Some (Min (rStart ` set la), Max (rEnd ` set la)))"
  by (cases la) (simp_all add: foldl_widen_Some)

lemma affixes_at_setdefault_append:
  "affixes_at (setdefault_append key x ab) k = (if k = key then affixes_at ab key @ [x] else affixes_at ab k)"
  by (simp add: affixes_at_def setdefault_append_def update_conv' split: option.splits)

lemma affixes_at_fold_setdefault_append:
  "affixes_at (fold (setdefault_append key) xs ab) k = (if k = key then affixes_at ab key @ xs else affixes_at ab k)"
  by (induction xs arbitrary: ab) (simp_all add: affixes_at_setdefault_append)

lemma subread_affixes_Inr:
  "subread_affixes ext M key sb = Inr xs \<Longrightarrow> xs = contrib ext M key sb"
  by (auto simp: subread_affixes_def contrib_def extent_at_def split: option.splits)

lemma collect_subreads_Inr:
  assumes "collect_subreads ext M key sbs ab = Inr ab'"
  shows "affixes_at ab' k =
     (if k = key then affixes_at ab key @ concat (map (contrib ext M key) sbs) else affixes_at ab k)"
  using assms
proof (induction sbs arbitrary: ab)
  case Nil
  then show ?case by simp
next
  case (Cons sb sbs)
  from Cons.prems obtain xs where x: "subread_affixes ext M key sb = Inr xs"
    and r: "collect_subreads ext M key sbs (fold (setdefault_append key) xs ab) = Inr ab'"
    by (auto split: sum.splits)
  from Cons.IH[OF r] subread_affixes_Inr[OF x] show ?case
    by (simp add: affixes_at_fold_setdefault_append)
qed

lemma collect_keys_Inr:
  assumes "collect_keys ext M d ab = Inr ab'" "distinct (map fst d)"
  shows "affixes_at ab' k =
     (case map_of d k of None \<Rightarrow> affixes_at ab k
      | Some subs \<Rightarrow> affixes_at ab k @ concat (map (contrib ext M k) (map fst subs)))"
  using assms
proof (induction d arbitrary: ab)
  case Nil
  then show ?case by simp
next
  case (Cons p d)
  obtain key subs where p: "p = (key, subs)" by (cases p)
  from Cons.prems(1) p obtain ab1 where
    s: "collect_subreads ext M key (map fst subs) ab = Inr ab1"
    and r: "collect_keys ext M d ab1 = Inr ab'"
    by (auto split: sum.splits)
  from Cons.prems(2) p have dd: "distinct (map fst d)" and nk: "map_of d key = None"
    by (auto simp: map_of_eq_None_iff)
  show ?case
    using Cons.IH[OF r dd] collect_subreads_Inr[OF s, of k] nk p
    by (auto split: option.splits)
qed

lemma affix_boundaries_InrD:
  assumes "affix_boundaries d as M = Inr ab"
  shows "\<exists>ext. accumulate d (init_extents d) as = Inr ext \<and> collect_keys ext M d [] = Inr ab"
  using assms by (auto simp: affix_boundaries_def split: sum.splits)

lemma extent_of_located:
  assumes "accumulate d (init_extents d) as = Inr ext"
  shows "extent_at ext key sb =
     (if located d as key sb = [] then None
      else Some (Min (rStart ` set (located d as key sb)), Max (rEnd ` set (located d as key sb))))"
proof -
  from accumulate_Inr[OF covers_init assms]
  have "extent_at ext key sb = foldl widen (extent_at (init_extents d) key sb) (located d as key sb)"
    by blast
  then show ?thesis by (simp add: extent_at_init foldl_widen_None)
qed

lemma contrib_spec:
  assumes "accumulate d (init_extents d) as = Inr ext"
  shows "contrib ext M key sb = spec_affixes M sb (located d as key sb)"
  by (simp add: contrib_def extent_of_located[OF assms] spec_affixes_def extract_affixes_def Let_def)

lemma spec_affixes_long: "iv \<in> set (spec_affixes M sb la) \<Longrightarrow> snd iv - fst iv \<ge> M"
  by (auto simp: spec_affixes_def split: if_splits)

lemma affix_boundaries_lookup:
  assumes "distinct (map fst d)" "affix_boundaries d as M = Inr ab" "map_of d key = Some subs"
  shows "affixes_at ab key = concat (map (\<lambda>sb. spec_affixes M sb (located d as key sb)) (map fst subs))"
proof -
  from affix_boundaries_InrD[OF assms(2)] obtain ext where
    a: "accumulate d (init_extents d) as = Inr ext" and c: "collect_keys ext M d [] = Inr ab"
    by blast
  from collect_keys_Inr[OF c assms(1), of key] assms(3)
  have "affixes_at ab key = concat (map (contrib ext M key) (map fst subs))"
    by (simp add: affixes_at_def)
  then show ?thesis by (simp add: contrib_spec[OF a] comp_def)
qed


lemma total_update_Some:
  "map_of ab key = Some l \<Longrightarrow>
   total_affixes (AList.update key v ab) + length l = total_affixes ab + length v"
  by (induction ab) (auto simp: total_affixes_def)

lemma total_update_None:
  "map_of ab key = None \<Longrightarrow> total_affixes (AList.update key v ab) = total_affixes ab + length v"
  by (induction ab) (auto simp: total_affixes_def)

lemma total_setdefault_append:
  "total_affixes (setdefault_append key x ab) = Suc (total_affixes ab)"
proof (cases "map_of ab key")
  case None
  then show ?thesis by (simp add: setdefault_append_def total_update_None)
next
  case (Some l)
  from total_update_Some[OF Some, of "l @ [x]"] Some show ?thesis
    by (simp add: setdefault_append_def)
qed

lemma total_fold_setdefault_append:
  "total_affixes (fold (setdefault_append key) xs ab) = total_affixes ab + length xs"
  by (induction xs arbitrary: ab) (simp_all add: total_setdefault_append)

lemma total_collect_subreads:
  assumes "collect_subreads ext M key sbs ab = Inr ab'"
  shows "total_affixes ab' = total_affixes ab + (\<Sum>sb\<leftarrow>sbs. length (contrib ext M key sb))"
  using assms
proof (induction sbs arbitrary: ab)
  case Nil
  then show ?case by simp
next
  case (Cons sb sbs)
  from Cons.prems obtain xs where x: "subread_affixes ext M key sb = Inr xs"
    and r: "collect_subreads ext M key sbs (fold (setdefault_append key) xs ab) = Inr ab'"
    by (auto split: sum.splits)
  from Cons.IH[OF r] subread_affixes_Inr[OF x] show ?case
    by (simp add: total_fold_setdefault_append)
qed

lemma total_collect_keys:
  assumes "collect_keys ext M d ab = Inr ab'"
  shows "total_affixes ab' =
     total_affixes ab + (\<Sum>(key, subs)\<leftarrow>d. \<Sum>sb\<leftarrow>map fst subs. length (contrib ext M key sb))"
  using assms
proof (induction d arbitrary: ab)
  case Nil
  then show ?case by simp
next
  case (Cons p d)
  obtain key subs where p: "p = (key, subs)" by (cases p)
  from Cons.prems p obtain ab1 where
    s: "collect_subreads ext M key (map fst subs) ab = Inr ab1"
    and r: "collect_keys ext M d ab1 = Inr ab'"
    by (auto split: sum.splits)
  from Cons.IH[OF r] total_collect_subreads[OF s] p show ?case by simp
qed

lemma subread_affixes_threshold:
  "subread_affixes ext M key sb = Inr xs \<Longrightarrow> \<exists>ys. subread_affixes ext M' key sb = Inr ys"
  by (auto simp: subread_affixes_def split: option.splits)

lemma collect_subreads_threshold:
  "collect_subreads ext M key sbs ab = Inr r \<Longrightarrow> \<exists>r'. collect_subreads ext M' key sbs ab2 = Inr r'"
proof (induction sbs arbitrary: ab ab2)
  case Nil
  then show ?case by simp
next
  case (Cons sb sbs)
  from Cons.prems obtain xs where x: "subread_affixes ext M key sb = Inr xs"
    and r: "collect_subreads ext M key sbs (fold (setdefault_append key) xs ab) = Inr r"
    by (auto split: sum.splits)
  from subread_affixes_threshold[OF x] obtain ys where y: "subread_affixes ext M' key sb = Inr ys"
    by blast
  from Cons.IH[OF r] y show ?case by simp
qed

lemma collect_keys_threshold:
  "collect_keys ext M d ab = Inr r \<Longrightarrow> \<exists>r'. collect_keys ext M' d ab2 = Inr r'"
proof (induction d arbitrary: ab ab2)
  case Nil
  then show ?case by simp
next
  case (Cons p d)
  obtain key subs where p: "p = (key, subs)" by (cases p)
  from Cons.prems p obtain ab1 where
    s: "collect_subreads ext M key (map fst subs) ab = Inr ab1"
    and r: "collect_keys ext M d ab1 = Inr r"
    by (auto split: sum.splits)
  from collect_subreads_threshold[OF s] obtain ab1' where
    s': "collect_subreads ext M' key (map fst subs) ab2 = Inr ab1'" by blast
  from Cons.IH[OF r] s' p show ?case by simp
qed

lemma extract_affixes_antimono:
  "M \<le> M' \<Longrightarrow> length (extract_affixes sb e M') \<le> length (extract_affixes sb e M)"
  by (simp add: extract_affixes_def Let_def)

lemma contrib_antimono:
  "M \<le> M' \<Longrightarrow> length (contrib ext M' key sb) \<le> length (contrib ext M key sb)"
  by (simp add: contrib_def extract_affixes_antimono split: option.splits)

lemma extract_affixes_long: "iv \<in> set (extract_affixes sb e M) \<Longrightarrow> M \<le> snd iv - fst iv"
  by (auto simp: extract_affixes_def Let_def split: if_splits)

lemma contrib_long: "iv \<in> set (contrib ext M key sb) \<Longrightarrow> M \<le> snd iv - fst iv"
  by (auto simp: contrib_def split: option.splits dest: extract_affixes_long)

lemma set_update_subset: "set (AList.update k v al) \<subseteq> insert (k, v) (set al)"
  by (induction al) auto

lemma all_long_setdefault_append:
  assumes "all_long M ab" "M \<le> snd x - fst x"
  shows "all_long M (setdefault_append key x ab)"
proof (cases "map_of ab key")
  case None
  with assms set_update_subset[of key "[x]" ab] show ?thesis
    unfolding all_long_def setdefault_append_def by fastforce
next
  case (Some l)
  then have "(key, l) \<in> set ab" by (rule map_of_SomeD)
  with assms Some set_update_subset[of key "l @ [x]" ab] show ?thesis
    unfolding all_long_def setdefault_append_def by fastforce
qed

lemma all_long_fold:
  "all_long M ab \<Longrightarrow> \<forall>x \<in> set xs. M \<le> snd x - fst x \<Longrightarrow>
   all_long M (fold (setdefault_append key) xs ab)"
  by (induction xs arbitrary: ab) (simp_all add: all_long_setdefault_append)

lemma all_long_collect_subreads:
  "collect_subreads ext M key sbs ab = Inr ab' \<Longrightarrow> all_long M ab \<Longrightarrow> all_long M ab'"
proof (induction sbs arbitrary: ab)
  case Nil
  then show ?case by simp
next
  case (Cons sb sbs)
  from Cons.prems obtain xs where x: "subread_affixes ext M key sb = Inr xs"
    and r: "collect_subreads ext M key sbs (fold (setdefault_append key) xs ab) = Inr ab'"
    by (auto split: sum.splits)
  have "all_long M (fold (setdefault_append key) xs ab)"
    using Cons.prems(2) subread_affixes_Inr[OF x] by (auto intro!: all_long_fold dest: contrib_long)
  from Cons.IH[OF r this] show ?case .
qed

lemma all_long_collect_keys:
  "collect_keys ext M d ab = Inr ab' \<Longrightarrow> all_long M ab \<Longrightarrow> all_long M ab'"
proof (induction d arbitrary: ab)
  case Nil
  then show ?case by simp
next
  case (Cons p d)
  obtain key subs where p: "p = (key, subs)" by (cases p)
  from Cons.prems p obtain ab1 where
    s: "collect_subreads ext M key (map fst subs) ab = Inr ab1"
    and r: "collect_keys ext M d ab1 = Inr ab'"
    by (auto split: sum.splits)
  from Cons.IH[OF r all_long_collect_subreads[OF s Cons.prems(2)]] show ?case .
qed

lemma sum_list_contrib_antimono:
  assumes "M \<le> M'"
  shows "(\<Sum>(key, subs)\<leftarrow>d. \<Sum>sb\<leftarrow>map fst subs. length (contrib ext M' key sb))
       \<le> (\<Sum>(key, subs)\<leftarrow>d. \<Sum>sb\<leftarrow>map fst subs. length (contrib ext M key sb))"
  by (intro sum_list_mono) (auto intro!: sum_list_mono contrib_antimono[OF assms])


lemma collect_subreads_total:
  assumes "ext key = Some inner" "set sbs \<subseteq> dom inner"
  shows "\<exists>ab'. collect_subreads ext M key sbs ab = Inr ab'"
  using assms
proof (induction sbs arbitrary: ab)
  case Nil
  then show ?case by simp
next
  case (Cons sb sbs)
  then obtain v where "inner sb = Some v" by auto
  with Cons.prems have "\<exists>xs. subread_affixes ext M key sb = Inr xs"
    by (cases v) (auto simp: subread_affixes_def)
  with Cons show ?case by auto
qed

lemma collect_keys_total:
  assumes "covers d0 ext" "distinct (map fst d0)" "set d \<subseteq> set d0"
  shows "\<exists>ab'. collect_keys ext M d ab = Inr ab'"
  using assms(3)
proof (induction d arbitrary: ab)
  case Nil
  then show ?case by simp
next
  case (Cons p d)
  obtain key subs where p: "p = (key, subs)" by (cases p)
  with Cons.prems have "(key, subs) \<in> set d0" by simp
  with assms(2) have "map_of d0 key = Some subs" by simp
  with assms(1) obtain inner where "ext key = Some inner" "fst ` set subs \<subseteq> dom inner"
    unfolding covers_def by blast
  from collect_subreads_total[of ext key inner "map fst subs" M ab] this
  obtain ab1 where "collect_subreads ext M key (map fst subs) ab = Inr ab1" by auto
  with Cons p show ?case by auto
qed

lemma affix_boundaries_returns:
  assumes "distinct (map fst d)"
  shows "(\<exists>ab. affix_boundaries d as M = Inr ab) \<longleftrightarrow>
     \<not> (\<exists>a \<in> set as. \<exists>key. find_subread_entry a d = (Some key, None))"
proof (cases "accumulate d (init_extents d) as")
  case (Inl e)
  with accumulate_Inl[OF covers_init, of d as e] show ?thesis
    by (auto simp: affix_boundaries_def)
next
  case (Inr ext)
  from accumulate_Inr[OF covers_init Inr] have "covers d ext" by simp
  from collect_keys_total[OF this assms, of d M "[]"] obtain ab where
    "collect_keys ext M d [] = Inr ab" by auto
  with Inr have "affix_boundaries d as M = Inr ab" by (simp add: affix_boundaries_def)
  moreover have "\<not> (\<exists>a \<in> set as. \<exists>key. find_subread_entry a d = (Some key, None))"
    using accumulate_Inl[OF covers_init, of d as KeyError] Inr by auto
  ultimately show ?thesis by blast
qed

lemma affix_boundaries_fails:
  assumes "a \<in> set as" "find_subread_entry a d = (Some key, None)"
  shows "affix_boundaries d as M = Inl KeyError"
proof -
  from accumulate_Inl[OF covers_init, of d as KeyError] assms
  have "accumulate d (init_extents d) as = Inl KeyError" by blast
  then show ?thesis by (simp add: affix_boundaries_def)
qed


lemma subread_affixes_covers:
  assumes "covers d ext" "map_of d key = Some subs" "sb \<in> fst ` set subs"
  shows "subread_affixes ext M key sb = Inr (contrib ext M key sb)"
proof -
  from assms obtain inner v where "ext key = Some inner" "inner sb = Some v"
    unfolding covers_def by blast
  then show ?thesis
    by (cases v) (simp_all add: subread_affixes_def contrib_def extent_at_def)
qed

lemma retained_affixes_spec:
  assumes "affix_boundaries d as M = Inr ab" "map_of d key = Some subs" "sb \<in> fst ` set subs"
  shows "retained_affixes d as M key sb = Inr (spec_affixes M sb (located d as key sb))"
proof -
  from affix_boundaries_InrD[OF assms(1)] obtain ext where
    a: "accumulate d (init_extents d) as = Inr ext" by blast
  from accumulate_Inr[OF covers_init a] have "covers d ext" by simp
  from subread_affixes_covers[OF this assms(2,3)] a show ?thesis
    by (simp add: retained_affixes_def contrib_spec[OF a])
qed

lemmas eval_affix =
  affix_boundaries_def init_extents_def record_extent_def find_subread_entry_def
  intersectRanges_def subread_affixes_def extract_affixes_def setdefault_append_def
  mk_alignment_def example_dict_def Let_def
text \<open>
  Where \<open>affix_boundaries\<close> returns, a subread in which no alignment was located adds no
  interval; a subread with located alignments adds the prefix from its start to the least
  read start iff that prefix is at least \<open>min_affix_size\<close> long, and the suffix from the
  greatest read end to its end iff that suffix is at least \<open>min_affix_size\<close> long.  The
  list that the result holds for a key of the subread dictionary is made of these intervals,
  subread after subread in the order of iteration.
\<close>

lemma affix_boundaries_spec:
  assumes "distinct (map fst subread_dict)"
    and "affix_boundaries subread_dict alignments min_affix_size = Inr affix_bounds"
    and "map_of subread_dict key = Some subs"
  shows "affixes_at affix_bounds key =
           concat (map (\<lambda>sb. spec_affixes min_affix_size sb (located subread_dict alignments key sb))
                    (map fst subs))
       \<and> (\<forall>sb \<in> fst ` set subs.
            retained_affixes subread_dict alignments min_affix_size key sb
              = Inr (spec_affixes min_affix_size sb (located subread_dict alignments key sb)))
       \<and> (\<forall>sb \<in> fst ` set subs. located subread_dict alignments key sb = [] \<longrightarrow>
            retained_affixes subread_dict alignments min_affix_size key sb = Inr [])
       \<and> (\<forall>sb \<in> fst ` set subs. located subread_dict alignments key sb \<noteq> [] \<longrightarrow>
           ((fst sb, Min (rStart ` set (located subread_dict alignments key sb)))
               \<in> set (affixes_at affix_bounds key)
             \<longleftrightarrow> Min (rStart ` set (located subread_dict alignments key sb)) - fst sb \<ge> min_affix_size)
         \<and> ((Max (rEnd ` set (located subread_dict alignments key sb)), snd sb)
               \<in> set (affixes_at affix_bounds key)
             \<longleftrightarrow> snd sb - Max (rEnd ` set (located subread_dict alignments key sb)) \<ge> min_affix_size))"
proof -
  let ?la = "\<lambda>sb. located subread_dict alignments key sb"
  have eq: "affixes_at affix_bounds key =
      concat (map (\<lambda>sb. spec_affixes min_affix_size sb (?la sb)) (map fst subs))"
    by (rule affix_boundaries_lookup[OF assms])
  have ret: "\<forall>sb \<in> fst ` set subs.
      retained_affixes subread_dict alignments min_affix_size key sb
        = Inr (spec_affixes min_affix_size sb (?la sb))"
    using retained_affixes_spec[OF assms(2,3)] by blast
  then have none: "\<forall>sb \<in> fst ` set subs. ?la sb = [] \<longrightarrow>
      retained_affixes subread_dict alignments min_affix_size key sb = Inr []"
    by (simp add: spec_affixes_def)
  have long: "snd iv - fst iv \<ge> min_affix_size" if "iv \<in> set (affixes_at affix_bounds key)" for iv
    using that unfolding eq by (auto dest: spec_affixes_long)
  have some: "\<forall>sb \<in> fst ` set subs. ?la sb \<noteq> [] \<longrightarrow>
           ((fst sb, Min (rStart ` set (?la sb))) \<in> set (affixes_at affix_bounds key)
             \<longleftrightarrow> Min (rStart ` set (?la sb)) - fst sb \<ge> min_affix_size)
         \<and> ((Max (rEnd ` set (?la sb)), snd sb) \<in> set (affixes_at affix_bounds key)
             \<longleftrightarrow> snd sb - Max (rEnd ` set (?la sb)) \<ge> min_affix_size)"
  proof (intro ballI impI conjI iffI)
    fix sb assume "sb \<in> fst ` set subs" "?la sb \<noteq> []"
    { assume "(fst sb, Min (rStart ` set (?la sb))) \<in> set (affixes_at affix_bounds key)"
      from long[OF this] show "min_affix_size \<le> Min (rStart ` set (?la sb)) - fst sb" by simp }
    { assume "(Max (rEnd ` set (?la sb)), snd sb) \<in> set (affixes_at affix_bounds key)"
      from long[OF this] show "min_affix_size \<le> snd sb - Max (rEnd ` set (?la sb))" by simp }
    { assume "min_affix_size \<le> Min (rStart ` set (?la sb)) - fst sb"
      with \<open>?la sb \<noteq> []\<close>
      have "(fst sb, Min (rStart ` set (?la sb))) \<in> set (spec_affixes min_affix_size sb (?la sb))"
        by (simp add: spec_affixes_def)
      with \<open>sb \<in> fst ` set subs\<close>
      show "(fst sb, Min (rStart ` set (?la sb))) \<in> set (affixes_at affix_bounds key)"
        unfolding eq by auto }
    { assume "min_affix_size \<le> snd sb - Max (rEnd ` set (?la sb))"
      with \<open>?la sb \<noteq> []\<close>
      have "(Max (rEnd ` set (?la sb)), snd sb) \<in> set (spec_affixes min_affix_size sb (?la sb))"
        by (simp add: spec_affixes_def)
      with \<open>sb \<in> fst ` set subs\<close>
      show "(Max (rEnd ` set (?la sb)), snd sb) \<in> set (affixes_at affix_bounds key)"
        unfolding eq by auto }
  qed
  from eq ret none some show ?thesis by blast
qed

text \<open>
  Claim C4 (affix extraction) fails on the code when an alignment of the stream falls in a
  gap between the subreads of its hole: \<open>affix_boundaries\<close> raises \<open>KeyError\<close> at line 73
  for that alignment, and reports no interval for any subread.  Here the alignment
  \<open>(100, 900)\<close> is located in the subread \<open>(0, 1000)\<close>, whose prefix \<open>(0, 100)\<close> and
  suffix \<open>(900, 1000)\<close> are both at least 50 long, and the alignment \<open>(1020, 1080)\<close> lies
  between the subreads \<open>(0, 1000)\<close> and \<open>(1100, 2000)\<close>.
\<close>

theorem affix_extraction_gap:
  "located (example_dict :: unit option subread_dict)
       [mk_alignment 1 100 900 254, mk_alignment 1 1020 1080 254] (''m1'', 1) (0, 1000)
     = [mk_alignment 1 100 900 254]
   \<and> spec_affixes 50 (0, 1000) [mk_alignment 1 100 900 254] = [(0, 100), (900, 1000)]
   \<and> affix_boundaries (example_dict :: unit option subread_dict)
       [mk_alignment 1 100 900 254, mk_alignment 1 1020 1080 254] 50
     = Inl KeyError
   \<and> retained_affixes (example_dict :: unit option subread_dict)
       [mk_alignment 1 100 900 254, mk_alignment 1 1020 1080 254] 50 (''m1'', 1) (0, 1000)
     = Inl KeyError"
proof -
  let ?d = "example_dict :: unit option subread_dict"
  let ?as = "[mk_alignment 1 100 900 254, mk_alignment 1 1020 1080 254]"
  have 1: "located ?d ?as (''m1'', 1) (0, 1000) = [mk_alignment 1 100 900 254]"
    by (simp add: located_def eval_affix)
  have 2: "spec_affixes 50 (0, 1000) [mk_alignment 1 100 900 254] = [(0, 100), (900, 1000)]"
    by (simp add: spec_affixes_def mk_alignment_def)
  have 3: "affix_boundaries ?d ?as 50 = Inl KeyError"
    by (simp add: eval_affix)
  have 4: "retained_affixes ?d ?as 50 (''m1'', 1) (0, 1000) = Inl KeyError"
    by (simp add: retained_affixes_def eval_affix)
  from 1 2 3 4 show ?thesis by blast
qed

text \<open>
  Claim C8 (size threshold, monotonicity).  For a fixed subread dictionary and alignment
  stream, every affix interval that \<open>affix_boundaries\<close> retains under \<open>min_affix_size = M\<close>
  is at least \<open>M\<close> long; and under any \<open>M' \<ge> M\<close> the function returns as well, with a total
  number of retained intervals that is not larger.
\<close>

theorem size_threshold:
  assumes "affix_boundaries subread_dict alignments M = Inr affix_bounds" and "M \<le> M'"
  shows "(\<forall>(key, l) \<in> set affix_bounds. \<forall>iv \<in> set l. snd iv - fst iv \<ge> M)
       \<and> (\<exists>affix_bounds'. affix_boundaries subread_dict alignments M' = Inr affix_bounds'
              \<and> total_affixes affix_bounds' \<le> total_affixes affix_bounds)"
proof -
  from affix_boundaries_InrD[OF assms(1)] obtain ext where
    a: "accumulate subread_dict (init_extents subread_dict) alignments = Inr ext"
    and c: "collect_keys ext M subread_dict [] = Inr affix_bounds"
    by blast
  have "all_long M affix_bounds"
    by (rule all_long_collect_keys[OF c]) (simp add: all_long_def)
  then have 1: "\<forall>(key, l) \<in> set affix_bounds. \<forall>iv \<in> set l. snd iv - fst iv \<ge> M"
    by (simp add: all_long_def)
  from collect_keys_threshold[OF c] obtain ab' where
    c': "collect_keys ext M' subread_dict [] = Inr ab'" by blast
  with a have r: "affix_boundaries subread_dict alignments M' = Inr ab'"
    by (simp add: affix_boundaries_def)
  from total_collect_keys[OF c] total_collect_keys[OF c'] sum_list_contrib_antimono[OF assms(2)]
  have "total_affixes ab' \<le> total_affixes affix_bounds"
    by (simp add: total_affixes_def)
  with 1 r show ?thesis by blast
qed

theorem size_threshold_witness:
  "affix_boundaries (example_dict :: unit option subread_dict)
         [mk_alignment 1 100 900 254, mk_alignment 1 150 950 254] 50
       = Inr [((''m1'', 1), [(0, 100), (950, 1000)])]
   \<and> (50 :: int) \<le> 100
   \<and> (\<exists>affix_bounds'.
         affix_boundaries (example_dict :: unit option subread_dict)
           [mk_alignment 1 100 900 254, mk_alignment 1 150 950 254] 100 = Inr affix_bounds'
         \<and> total_affixes affix_bounds' \<le> total_affixes [((''m1'', 1), [(0, 100), (950, 1000)])])"
proof -
  let ?d = "example_dict :: unit option subread_dict"
  let ?as = "[mk_alignment 1 100 900 254, mk_alignment 1 150 950 254]"
  have h1: "affix_boundaries ?d ?as 50 = Inr [((''m1'', 1), [(0, 100), (950, 1000)])]"
    by (simp add: eval_affix)
  have h2: "(50 :: int) \<le> 100" by simp
  from size_threshold[OF h1 h2] h1 h2 show ?thesis by blast
qed

text \<open>
  Claim C9 (no self-overlap).  Every affix interval that \<open>affix_boundaries\<close> retains for a
  subread, that is every interval that the loop of lines 87 to 99 adds for it to the list of
  its hole, is disjoint from the read interval of every alignment of the stream that was
  located in that subread while the extents were accumulated: the two do not overlap in the
  sense \<open>max(a.start, b.start) < min(a.end, b.end)\<close>.
\<close>

theorem no_self_overlap:
  assumes "distinct (map fst subread_dict)"
    and "affix_boundaries subread_dict alignments min_affix_size = Inr affix_bounds"
    and "retained_affixes subread_dict alignments min_affix_size key subread_bounds = Inr affixes"
    and "affix \<in> set affixes"
    and "alignment \<in> set alignments"
    and "find_subread_entry alignment subread_dict = (Some key, Some subread_bounds)"
  shows "affix \<in> set (affixes_at affix_bounds key)
       \<and> intersectRanges affix (rStart alignment, rEnd alignment) = None
       \<and> \<not> max (fst affix) (rStart alignment) < min (snd affix) (rEnd alignment)"
proof -
  let ?la = "located subread_dict alignments key subread_bounds"
  from assms(3) obtain alignment_extents where
    acc: "accumulate subread_dict (init_extents subread_dict) alignments = Inr alignment_extents"
    and sa: "subread_affixes alignment_extents min_affix_size key subread_bounds = Inr affixes"
    by (auto simp: retained_affixes_def split: sum.splits)
  from assms(5,6) have in_la: "alignment \<in> set ?la" by (simp add: located_def)
  then have ne: "?la \<noteq> []" by auto
  have lo: "Min (rStart ` set ?la) \<le> rStart alignment" using in_la by simp
  have hi: "rEnd alignment \<le> Max (rEnd ` set ?la)" using in_la by simp
  from subread_affixes_Inr[OF sa] contrib_spec[OF acc]
  have aff: "affixes = spec_affixes min_affix_size subread_bounds ?la" by simp
  with assms(4) ne have
    "affix = (fst subread_bounds, Min (rStart ` set ?la))
     \<or> affix = (Max (rEnd ` set ?la), snd subread_bounds)"
    by (auto simp: spec_affixes_def split: if_splits)
  with lo hi have no: "\<not> max (fst affix) (rStart alignment) < min (snd affix) (rEnd alignment)"
    by auto
  from find_Some_Some[OF assms(6)] obtain subs where
    m: "map_of subread_dict key = Some subs" and sb: "subread_bounds \<in> fst ` set subs"
    by blast
  from affix_boundaries_lookup[OF assms(1,2) m] aff assms(4) sb
  have "affix \<in> set (affixes_at affix_bounds key)" by auto
  with no show ?thesis by (simp add: intersectRanges_def Let_def)
qed

theorem no_self_overlap_witness:
  "distinct (map fst (example_dict :: unit option subread_dict))
   \<and> affix_boundaries (example_dict :: unit option subread_dict)
         [mk_alignment 1 100 900 254, mk_alignment 1 150 950 254] 50
       = Inr [((''m1'', 1), [(0, 100), (950, 1000)])]
   \<and> retained_affixes (example_dict :: unit option subread_dict)
         [mk_alignment 1 100 900 254, mk_alignment 1 150 950 254] 50 (''m1'', 1) (0, 1000)
       = Inr [(0, 100), (950, 1000)]
   \<and> find_subread_entry (mk_alignment 1 100 900 254) (example_dict :: unit option subread_dict)
       = (Some (''m1'', 1), Some (0, 1000))
   \<and> (0, 100) \<in> set (affixes_at [((''m1'', 1), [(0, 100), (950, 1000)])] (''m1'', 1))
   \<and> intersectRanges (0, 100) (100, 900) = None"
proof -
  let ?d = "example_dict :: unit option subread_dict"
  let ?as = "[mk_alignment 1 100 900 254, mk_alignment 1 150 950 254]"
  have h1: "distinct (map fst ?d)" by (simp add: example_dict_def)
  have h2: "affix_boundaries ?d ?as 50 = Inr [((''m1'', 1), [(0, 100), (950, 1000)])]"
    by (simp add: eval_affix)
  have h3: "retained_affixes ?d ?as 50 (''m1'', 1) (0, 1000) = Inr [(0, 100), (950, 1000)]"
    by (simp add: retained_affixes_def eval_affix)
  have h4: "(0, 100) \<in> set [(0, 100), (950, 1000 :: int)]" by simp
  have h5: "mk_alignment 1 100 900 254 \<in> set ?as" by simp
  have h6: "find_subread_entry (mk_alignment 1 100 900 254) ?d = (Some (''m1'', 1), Some (0, 1000))"
    by (simp add: eval_affix)
  from no_self_overlap[OF h1 h2 h3 h4 h5 h6] h1 h2 h3 h6 show ?thesis
    by (simp add: mk_alignment_def)
qed

section \<open>Properties of \<open>affix_region_table\<close>\<close>

lemma numpy_max_Max: "xs \<noteq> [] \<Longrightarrow> numpy_max xs = Inr (Max (set xs))"
  by (cases xs) (simp_all add: Max.set_eq_fold[symmetric])

lemma walk_affixes_hole: "r \<in> set (walk_affixes h L p affs) \<Longrightarrow> holeNumber r = h"
  by (induction affs arbitrary: p) auto

lemma walk_affixes_non_hq: "r \<in> set (walk_affixes h L p affs) \<Longrightarrow> regionType r \<noteq> HQ_REGION"
  by (induction affs arbitrary: p) (auto simp: ADAPTER_REGION_def INSERT_REGION_def HQ_REGION_def)

lemma walk_affixes_head:
  "\<exists>r rs. walk_affixes h L p affs = r # rs \<and> regionType r = ADAPTER_REGION"
  by (cases affs) simp_all

lemma walk_affixes_alternates: "alternates (walk_affixes h L p affs)"
proof (induction affs arbitrary: p)
  case Nil
  then show ?case by simp
next
  case (Cons a affs)
  from walk_affixes_head[of h L "snd a" affs] obtain r rs where
    w: "walk_affixes h L (snd a) affs = r # rs" and t: "regionType r = ADAPTER_REGION" by blast
  from Cons.IH[of "snd a"] w t show ?case
    by (simp add: ADAPTER_REGION_def INSERT_REGION_def)
qed

lemma walk_affixes_tiles: "chain p affs L \<Longrightarrow> tiles p L (walk_affixes h L p affs)"
  by (induction affs arbitrary: p) simp_all

lemma walk_affixes_sorted:
  "chain p affs L \<Longrightarrow>
   sorted (map regionStart (walk_affixes h L p affs))
   \<and> (\<forall>r \<in> set (walk_affixes h L p affs). p \<le> regionStart r)"
proof (induction affs arbitrary: p)
  case Nil
  then show ?case by simp
next
  case (Cons a affs)
  from Cons.prems have c: "chain (snd a) affs L" and pa: "p \<le> fst a" and aa: "fst a \<le> snd a"
    by simp_all
  from Cons.IH[OF c] pa aa show ?case by fastforce
qed

lemma disjoint_intervals_sym: "disjoint_intervals a b \<longleftrightarrow> disjoint_intervals b a"
  by (auto simp: disjoint_intervals_def)

lemma disjoint_intervals_overlap:
  "fst a < snd a \<Longrightarrow> fst b < snd b \<Longrightarrow>
   disjoint_intervals a b \<longleftrightarrow> intersectRanges a b = None"
  by (auto simp: disjoint_intervals_def intersectRanges_def Let_def)

lemma pairwise_disjoint_insort:
  "pairwise_disjoint (insort a xs) \<longleftrightarrow> (\<forall>b \<in> set xs. disjoint_intervals a b) \<and> pairwise_disjoint xs"
  by (induction xs) (auto simp: disjoint_intervals_def set_insort_key)

lemma pairwise_disjoint_sort: "pairwise_disjoint (sort xs) \<longleftrightarrow> pairwise_disjoint xs"
  by (induction xs) (simp_all add: pairwise_disjoint_insort)

lemma sorted_disjoint_chain:
  assumes "sorted affs" "pairwise_disjoint affs"
    and "\<forall>a \<in> set affs. p \<le> fst a \<and> fst a \<le> snd a \<and> snd a \<le> L" and "p \<le> L"
  shows "chain p affs L"
  using assms
proof (induction affs arbitrary: p)
  case Nil
  then show ?case by simp
next
  case (Cons a affs)
  have "snd a \<le> fst b" if b: "b \<in> set affs" for b
  proof -
    from Cons.prems(1) b have le: "a \<le> b" by simp
    from Cons.prems(2) b have d: "disjoint_intervals a b" by simp
    from Cons.prems(3) b have bb: "fst b \<le> snd b" by simp
    from le have "fst a < fst b \<or> (fst a = fst b \<and> snd a \<le> snd b)"
      by (cases a; cases b) (auto simp: less_eq_prod_def)
    with d bb show ?thesis by (auto simp: disjoint_intervals_def)
  qed
  with Cons.prems have "chain (snd a) affs L"
    by (intro Cons.IH) auto
  with Cons.prems(3) show ?case by simp
qed

lemma affixes_within_chain:
  assumes "affixes_within L affs" "0 \<le> L"
  shows "chain 0 (sort affs) L"
  using assms unfolding affixes_within_def
  by (intro sorted_disjoint_chain) (auto simp: pairwise_disjoint_sort)

lemma sorted_lex_fst: "sorted (xs :: bounds list) \<Longrightarrow> sorted (map fst xs)"
proof (induction xs)
  case Nil
  then show ?case by simp
next
  case (Cons a xs)
  have "fst a \<le> fst b" if "b \<in> set xs" for b
  proof -
    from Cons.prems that have "a \<le> b" by simp
    then show ?thesis by (cases a; cases b) (auto simp: less_eq_prod_def)
  qed
  with Cons show ?case by auto
qed


lemma hole_regions_hole:
  assumes "hole_regions t h ao = Inr rows" "r \<in> set rows"
  shows "holeNumber r = h"
proof -
  let ?hr = "filter (\<lambda>r. holeNumber r = h) t"
  from assms(1) obtain L hq rest where
    L: "numpy_max (map regionEnd ?hr) = Inr L"
    and hq: "filter (\<lambda>r. regionType r = 2) ?hr = hq # rest"
    by (auto simp: hole_regions_def Let_def split: sum.splits list.splits)
  from hq have "hq \<in> set (filter (\<lambda>r. regionType r = 2) ?hr)" by simp
  then have hh: "holeNumber hq = h" by simp
  show ?thesis
  proof (cases ao)
    case None
    with assms L hq show ?thesis by (auto simp: hole_regions_def Let_def)
  next
    case (Some affs)
    with assms L hq have "r \<in> set (walk_affixes h L 0 (sort affs)) \<or> r = hq"
      by (auto simp: hole_regions_def Let_def)
    with hh show ?thesis by (auto dest: walk_affixes_hole)
  qed
qed

lemma rows_of_hole_append [simp]: "rows_of_hole h (xs @ ys) = rows_of_hole h xs @ rows_of_hole h ys"
  by (simp add: rows_of_hole_def)

lemma rows_of_hole_same: "\<forall>r \<in> set rows. holeNumber r = h \<Longrightarrow> rows_of_hole h rows = rows"
  by (simp add: rows_of_hole_def)

lemma rows_of_hole_other: "\<forall>r \<in> set rows. holeNumber r = h' \<Longrightarrow> h \<noteq> h' \<Longrightarrow> rows_of_hole h rows = []"
  by (auto simp: rows_of_hole_def filter_empty_conv)

lemma map_of_sort_entry:
  "map_of (sort_entry movie h ab) k =
     (if k = (movie, h) then map_option sort (map_of ab k) else map_of ab k)"
  by (auto simp: sort_entry_def update_conv' split: option.splits)

lemma region_loop_step:
  "region_loop t movie (h # hs) out ab =
     (case hole_regions t h (map_of ab (movie, h)) of
        Inl e \<Rightarrow> Inl e
      | Inr rows \<Rightarrow> region_loop t movie hs (out @ rows) (sort_entry movie h ab))"
  by (simp add: sort_entry_def split: sum.splits)

lemma region_loop_rows:
  assumes "region_loop t movie hs out ab = Inr (out', ab')" "distinct hs"
  shows "(h \<in> set hs \<longrightarrow>
            (\<exists>rows. hole_regions t h (map_of ab (movie, h)) = Inr rows
               \<and> rows_of_hole h out' = rows_of_hole h out @ rows))
       \<and> (h \<notin> set hs \<longrightarrow> rows_of_hole h out' = rows_of_hole h out)"
  using assms
proof (induction hs arbitrary: out ab)
  case Nil
  then show ?case by simp
next
  case (Cons h0 hs)
  from Cons.prems(1) obtain rows0 where
    r0: "hole_regions t h0 (map_of ab (movie, h0)) = Inr rows0"
    and r: "region_loop t movie hs (out @ rows0) (sort_entry movie h0 ab) = Inr (out', ab')"
    unfolding region_loop_step by (auto split: sum.splits)
  from Cons.prems(2) have d: "distinct hs" and n0: "h0 \<notin> set hs" by simp_all
  note IH = Cons.IH[OF r d]
  have own: "\<forall>r \<in> set rows0. holeNumber r = h0"
    using hole_regions_hole[OF r0] by blast
  show ?case
  proof (cases "h = h0")
    case True
    with IH n0 r0 rows_of_hole_same[OF own] show ?thesis by simp
  next
    case False
    then have "map_of (sort_entry movie h0 ab) (movie, h) = map_of ab (movie, h)"
      by (simp add: map_of_sort_entry)
    with IH False rows_of_hole_other[OF own, of h] show ?thesis by simp
  qed
qed

lemma region_loop_affix_bounds:
  assumes "region_loop t movie hs out ab = Inr (out', ab')" "distinct hs"
  shows "map_of ab' k =
     (if k \<in> Pair movie ` set hs then map_option sort (map_of ab k) else map_of ab k)"
  using assms
proof (induction hs arbitrary: out ab)
  case Nil
  then show ?case by simp
next
  case (Cons h0 hs)
  from Cons.prems(1) obtain rows0 where
    r: "region_loop t movie hs (out @ rows0) (sort_entry movie h0 ab) = Inr (out', ab')"
    unfolding region_loop_step by (auto split: sum.splits)
  from Cons.prems(2) have d: "distinct hs" and n0: "h0 \<notin> set hs" by simp_all
  from Cons.IH[OF r d] n0 show ?case
    by (auto simp: map_of_sort_entry)
qed

lemma numpy_unique_props: "distinct (numpy_unique xs) \<and> set (numpy_unique xs) = set xs"
  by (simp add: numpy_unique_def)

lemma affix_region_table_rows:
  assumes "affix_region_table t movie ab = Inr (out, ab')" "h \<in> set (map holeNumber t)"
  shows "hole_regions t h (map_of ab (movie, h)) = Inr (rows_of_hole h out)"
proof -
  from assms(2) have "h \<in> set (numpy_unique (map holeNumber t))"
    by (simp add: numpy_unique_props)
  with region_loop_rows[OF assms(1)[unfolded affix_region_table_def], of h] numpy_unique_props
  show ?thesis by (auto simp: rows_of_hole_def)
qed

lemma zmw_length_read_length:
  assumes "h \<in> set (map holeNumber t)"
  shows "numpy_max (map regionEnd (filter (\<lambda>r. holeNumber r = h) t)) = Inr (read_length t h)"
proof -
  from assms have "filter (\<lambda>r. holeNumber r = h) t \<noteq> []"
    by (auto simp: filter_empty_conv)
  then show ?thesis
    by (simp add: numpy_max_Max read_length_def rows_of_hole_def)
qed


lemmas eval_region =
  affix_region_table_def numpy_unique_def hole_regions_def example_table_def
  example_affix_bounds_def example_output_def ADAPTER_REGION_def INSERT_REGION_def
  HQ_REGION_def Let_def

lemma example_region_table:
  "affix_region_table example_table ''m1'' example_affix_bounds
     = Inr (example_output, [((''m1'', 9), [(0, 100), (950, 1000), (1100, 1300)])])"
  by (simp add: eval_region)

lemma affix_region_table_holes:
  assumes "affix_region_table t movie ab = Inr (out, ab')"
  shows "set (map holeNumber out) = set (map holeNumber t)"
proof -
  let ?hs = "numpy_unique (map holeNumber t)"
  have hs: "distinct ?hs" "set ?hs = set (map holeNumber t)"
    using numpy_unique_props[of "map holeNumber t"] by simp_all
  note R = region_loop_rows[OF assms[unfolded affix_region_table_def] hs(1)]
  have sub: "h \<in> set (map holeNumber t)" if "h \<in> set (map holeNumber out)" for h
  proof (rule ccontr)
    assume "h \<notin> set (map holeNumber t)"
    with R[of h] hs(2) have "rows_of_hole h out = []" by (simp add: rows_of_hole_def)
    with that show False by (auto simp: rows_of_hole_def filter_empty_conv)
  qed
  have sup: "h \<in> set (map holeNumber out)" if "h \<in> set (map holeNumber t)" for h
  proof -
    from affix_region_table_rows[OF assms that]
    have ne: "rows_of_hole h out \<noteq> []"
      by (auto simp: hole_regions_def Let_def split: sum.splits list.splits option.splits)
    then obtain r where "r \<in> set (rows_of_hole h out)" by (cases "rows_of_hole h out") auto
    then show ?thesis by (auto simp: rows_of_hole_def)
  qed
  from sub sup show ?thesis by blast
qed


lemma rows_without_affixes:
  assumes "affix_region_table t movie ab = Inr (out, ab')"
    and "h \<in> set (map holeNumber t)"
    and "map_of ab (movie, h) = None"
  shows "rows_of_hole h out =
     [\<lparr>holeNumber = h, regionType = HQ_REGION, regionStart = 0, regionEnd = 0, regionScore = 0\<rparr>,
      \<lparr>holeNumber = h, regionType = ADAPTER_REGION,
       regionStart = 0, regionEnd = read_length t h, regionScore = 0\<rparr>]"
  using affix_region_table_rows[OF assms(1,2)] assms(3) zmw_length_read_length[OF assms(2)]
  by (auto simp: hole_regions_def Let_def split: list.splits)

lemma pairwise_disjoint_append:
  "pairwise_disjoint (xs @ ys) \<longleftrightarrow>
     pairwise_disjoint xs \<and> pairwise_disjoint ys
     \<and> (\<forall>a \<in> set xs. \<forall>b \<in> set ys. disjoint_intervals a b)"
  by (induction xs) auto

lemma located_overlap:
  assumes "a \<in> set (located d as key sb)"
  shows "rStart a < snd sb \<and> fst sb < rEnd a \<and> rStart a < rEnd a"
proof -
  from assms have "find_subread_entry a d = (Some key, Some sb)" by (simp add: located_def)
  from find_Some_Some[OF this] have "intersectRanges (rStart a, rEnd a) sb \<noteq> None" by blast
  then show ?thesis by (auto simp: intersectRanges_def Let_def split: if_splits)
qed

lemma spec_affixes_inside:
  assumes "0 \<le> M"
  shows "(\<forall>iv \<in> set (spec_affixes M sb (located d as key sb)).
            fst sb \<le> fst iv \<and> fst iv \<le> snd iv \<and> snd iv \<le> snd sb)
       \<and> pairwise_disjoint (spec_affixes M sb (located d as key sb))"
proof (cases "located d as key sb = []")
  case True
  then show ?thesis by (simp add: spec_affixes_def)
next
  case False
  let ?la = "located d as key sb"
  from False obtain a where a: "a \<in> set ?la" by (cases ?la) auto
  note ov = located_overlap[OF a]
  define lo where "lo = Min (rStart ` set ?la)"
  define hi where "hi = Max (rEnd ` set ?la)"
  have lo: "lo \<le> rStart a" unfolding lo_def using a by simp
  have hi: "rEnd a \<le> hi" unfolding hi_def using a by simp
  have sa: "spec_affixes M sb ?la =
      (if lo - fst sb \<ge> M then [(fst sb, lo)] else [])
      @ (if snd sb - hi \<ge> M then [(hi, snd sb)] else [])"
    using False by (simp add: spec_affixes_def lo_def hi_def)
  from lo hi ov assms show ?thesis
    unfolding sa by (auto simp: disjoint_intervals_def)
qed

lemma concat_affixes_within:
  assumes "pairwise_disjoint sbs"
    and "\<forall>sb \<in> set sbs. 0 \<le> fst sb \<and> snd sb \<le> L"
    and "\<forall>sb \<in> set sbs. (\<forall>iv \<in> set (f sb). fst sb \<le> fst iv \<and> fst iv \<le> snd iv \<and> snd iv \<le> snd sb)
           \<and> pairwise_disjoint (f sb)"
  shows "(\<forall>iv \<in> set (concat (map f sbs)). \<exists>sb \<in> set sbs.
            fst sb \<le> fst iv \<and> fst iv \<le> snd iv \<and> snd iv \<le> snd sb)
       \<and> pairwise_disjoint (concat (map f sbs))"
  using assms
proof (induction sbs)
  case Nil
  then show ?case by simp
next
  case (Cons sb sbs)
  from Cons.prems have IH: "(\<forall>iv \<in> set (concat (map f sbs)). \<exists>sb \<in> set sbs.
            fst sb \<le> fst iv \<and> fst iv \<le> snd iv \<and> snd iv \<le> snd sb)
       \<and> pairwise_disjoint (concat (map f sbs))"
    by (intro Cons.IH) auto
  have cross: "disjoint_intervals a b" if "a \<in> set (f sb)" "b \<in> set (concat (map f sbs))" for a b
  proof -
    from IH that(2) obtain sb' where sb': "sb' \<in> set sbs"
      and b: "fst sb' \<le> fst b" "snd b \<le> snd sb'" by blast
    from Cons.prems(1) sb' have d: "disjoint_intervals sb sb'" by simp
    from Cons.prems(3) that(1) have a: "fst sb \<le> fst a" "snd a \<le> snd sb" by auto
    from d a b show ?thesis by (auto simp: disjoint_intervals_def)
  qed
  from Cons.prems(3) have own: "\<forall>iv \<in> set (f sb). fst sb \<le> fst iv \<and> fst iv \<le> snd iv \<and> snd iv \<le> snd sb"
    and pd: "pairwise_disjoint (f sb)" by auto
  from IH own pd cross show ?case
    by (auto simp: pairwise_disjoint_append)
qed

text \<open>The affix intervals that \<open>affix_boundaries\<close> finds for a hole whose subreads are pairwise
  disjoint and lie within \<open>[0, L)\<close> are pairwise disjoint intervals within \<open>[0, L)\<close>.\<close>

lemma affix_boundaries_within:
  assumes "distinct (map fst d)" "affix_boundaries d as M = Inr ab" "map_of d key = Some subs"
    and "0 \<le> M" "pairwise_disjoint (map fst subs)"
    and "\<forall>sb \<in> fst ` set subs. 0 \<le> fst sb \<and> snd sb \<le> L"
  shows "affixes_within L (affixes_at ab key)"
proof -
  let ?f = "\<lambda>sb. spec_affixes M sb (located d as key sb)"
  have eq: "affixes_at ab key = concat (map ?f (map fst subs))"
    by (rule affix_boundaries_lookup[OF assms(1,2,3)])
  from assms(6) have in_L: "\<forall>sb \<in> set (map fst subs). 0 \<le> fst sb \<and> snd sb \<le> L" by simp
  have ins: "\<forall>sb \<in> set (map fst subs).
      (\<forall>iv \<in> set (?f sb). fst sb \<le> fst iv \<and> fst iv \<le> snd iv \<and> snd iv \<le> snd sb)
       \<and> pairwise_disjoint (?f sb)"
    using spec_affixes_inside[OF assms(4)] by blast
  from concat_affixes_within[OF assms(5) in_L ins] in_L show ?thesis
    unfolding eq affixes_within_def by fastforce
qed

text \<open>
  Claim C2, as amended (holes without affixes).  For every hole number of the original
  table that has no entry in \<open>affix_bounds\<close>, the rows of the synthesized table for that
  hole are exactly two: a zero-length row of the high-quality type, \<open>[hole, HQ_REGION, 0, 0, 0]\<close>,
  and an adapter row spanning \<open>[0, read_length)\<close>.  The high-quality row of the original
  table is not copied for such a hole.
\<close>

theorem no_affix_rows:
  assumes "affix_region_table original_region_table movie_name affix_bounds = Inr (out, affix_bounds')"
    and "hole_number \<in> set (map holeNumber original_region_table)"
    and "map_of affix_bounds (movie_name, hole_number) = None"
  shows "rows_of_hole hole_number out =
     [\<lparr>holeNumber = hole_number, regionType = HQ_REGION,
       regionStart = 0, regionEnd = 0, regionScore = 0\<rparr>,
      \<lparr>holeNumber = hole_number, regionType = ADAPTER_REGION,
       regionStart = 0, regionEnd = read_length original_region_table hole_number, regionScore = 0\<rparr>]"
  by (rule rows_without_affixes[OF assms])

theorem no_affix_rows_witness:
  "affix_region_table example_table ''m1'' example_affix_bounds
     = Inr (example_output, [((''m1'', 9), [(0, 100), (950, 1000), (1100, 1300)])])
   \<and> 7 \<in> set (map holeNumber example_table)
   \<and> map_of example_affix_bounds (''m1'', 7) = None
   \<and> rows_of_hole 7 example_output =
     [\<lparr>holeNumber = 7, regionType = 2, regionStart = 0, regionEnd = 0, regionScore = 0\<rparr>,
      \<lparr>holeNumber = 7, regionType = 0, regionStart = 0, regionEnd = 600, regionScore = 0\<rparr>]"
proof -
  have h1: "affix_region_table example_table ''m1'' example_affix_bounds
     = Inr (example_output, [((''m1'', 9), [(0, 100), (950, 1000), (1100, 1300)])])"
    by (simp add: eval_region)
  have h2: "7 \<in> set (map holeNumber example_table)" by (simp add: example_table_def)
  have h3: "map_of example_affix_bounds (''m1'', 7) = None" by (simp add: example_affix_bounds_def)
  have rl: "read_length example_table 7 = 600"
    by (simp add: read_length_def rows_of_hole_def example_table_def)
  from no_affix_rows[OF h1 h2 h3] h1 h2 h3 rl show ?thesis
    by (simp add: HQ_REGION_def ADAPTER_REGION_def)
qed

text \<open>
  Claim C2 as stated also has the original high-quality row of the hole, unchanged, among
  the rows of a hole without affixes.  Hole 7 of the example table has the high-quality row
  \<open>[7, 2, 10, 590, 820]\<close> and no affixes, and that row is not in the output.
\<close>

theorem no_affix_hq_row_counterexample:
  "affix_region_table example_table ''m1'' example_affix_bounds
     = Inr (example_output, [((''m1'', 9), [(0, 100), (950, 1000), (1100, 1300)])])
   \<and> map_of example_affix_bounds (''m1'', 7) = None
   \<and> \<lparr>holeNumber = 7, regionType = 2, regionStart = 10, regionEnd = 590, regionScore = 820\<rparr>
       \<in> set example_table
   \<and> \<lparr>holeNumber = 7, regionType = 2, regionStart = 10, regionEnd = 590, regionScore = 820\<rparr>
       \<notin> set example_output"
  by (simp add: eval_region)

text \<open>
  Claim C5 (tiling and alternation).  Let the affix intervals of a hole be pairwise
  disjoint intervals within \<open>[0, read_length)\<close>, the read length being the greatest end
  coordinate of the hole in the original table.  Then, for every hole of the synthesized
  table, the rows that are not of the high-quality type, sorted by start coordinate (a
  stable sort, as Python's), tile \<open>[0, read_length)\<close> without gap or overlap, and no two
  consecutive ones have the same type.  Two intervals count as disjoint when one ends where
  or before the other starts, which for intervals that are not empty is the absence of
  overlap (\<open>disjoint_intervals_overlap\<close>); the intervals that \<open>affix_boundaries\<close> finds for
  pairwise disjoint subreads are of this kind (\<open>affix_boundaries_within\<close>).
\<close>

theorem region_table_tiling:
  assumes "affix_region_table original_region_table movie_name affix_bounds = Inr (out, affix_bounds')"
    and "hole_number \<in> set (map holeNumber out)"
    and "0 \<le> read_length original_region_table hole_number"
    and "case map_of affix_bounds (movie_name, hole_number) of
           None \<Rightarrow> True
         | Some affs \<Rightarrow> affixes_within (read_length original_region_table hole_number) affs"
  shows "tiles 0 (read_length original_region_table hole_number)
           (sort_key regionStart (non_hq_rows (rows_of_hole hole_number out)))
       \<and> alternates (sort_key regionStart (non_hq_rows (rows_of_hole hole_number out)))"
proof -
  let ?L = "read_length original_region_table hole_number"
  from assms(2) affix_region_table_holes[OF assms(1)]
  have h: "hole_number \<in> set (map holeNumber original_region_table)" by simp
  note rows = affix_region_table_rows[OF assms(1) h]
  note zl = zmw_length_read_length[OF h]
  show ?thesis
  proof (cases "map_of affix_bounds (movie_name, hole_number)")
    case None
    from rows_without_affixes[OF assms(1) h None] assms(3) show ?thesis
      by (simp add: non_hq_rows_def HQ_REGION_def ADAPTER_REGION_def)
  next
    case (Some affs)
    with assms(4) have w: "affixes_within ?L affs" by simp
    from affixes_within_chain[OF w assms(3)] have c: "chain 0 (sort affs) ?L" .
    let ?w = "walk_affixes hole_number ?L 0 (sort affs)"
    from rows Some zl obtain hq rest where
      f: "filter (\<lambda>r. holeNumber r = hole_number \<and> regionType r = 2) original_region_table
            = hq # rest"
      and r: "rows_of_hole hole_number out = ?w @ [hq]"
      by (auto simp: hole_regions_def Let_def split: list.splits)
    from f have "hq \<in> set (filter (\<lambda>r. holeNumber r = hole_number \<and> regionType r = 2)
        original_region_table)" by simp
    then have hq: "regionType hq = 2" by simp
    have "non_hq_rows (rows_of_hole hole_number out) = ?w"
      unfolding r non_hq_rows_def using hq walk_affixes_non_hq[of _ hole_number ?L 0 "sort affs"]
      by (auto simp: HQ_REGION_def filter_id_conv)
    moreover have "sort_key regionStart ?w = ?w"
      using walk_affixes_sorted[OF c] by (intro sort_key_id_if_sorted) simp
    ultimately show ?thesis
      using walk_affixes_tiles[OF c] walk_affixes_alternates by simp
  qed
qed

theorem region_table_tiling_witness:
  "affix_region_table example_table ''m1'' example_affix_bounds
     = Inr (example_output, [((''m1'', 9), [(0, 100), (950, 1000), (1100, 1300)])])
   \<and> 9 \<in> set (map holeNumber example_output)
   \<and> read_length example_table 9 = 2000
   \<and> map_of example_affix_bounds (''m1'', 9) = Some [(1100, 1300), (0, 100), (950, 1000)]
   \<and> tiles 0 2000 (sort_key regionStart (non_hq_rows (rows_of_hole 9 example_output)))
   \<and> alternates (sort_key regionStart (non_hq_rows (rows_of_hole 9 example_output)))"
proof -
  have h1: "affix_region_table example_table ''m1'' example_affix_bounds
     = Inr (example_output, [((''m1'', 9), [(0, 100), (950, 1000), (1100, 1300)])])"
    by (simp add: eval_region)
  have h2: "9 \<in> set (map holeNumber example_output)" by (simp add: example_output_def)
  have rl: "read_length example_table 9 = 2000"
    by (simp add: read_length_def rows_of_hole_def example_table_def)
  have h3: "0 \<le> read_length example_table 9" by (simp add: rl)
  have m: "map_of example_affix_bounds (''m1'', 9) = Some [(1100, 1300), (0, 100), (950, 1000)]"
    by (simp add: example_affix_bounds_def)
  have h4: "case map_of example_affix_bounds (''m1'', 9) of
           None \<Rightarrow> True
         | Some affs \<Rightarrow> affixes_within (read_length example_table 9) affs"
    by (simp add: m rl affixes_within_def disjoint_intervals_def)
  from region_table_tiling[OF h1 h2 h3 h4] h1 h2 rl m show ?thesis by simp
qed

text \<open>
  Claim C10 (the argument is sorted in place).  After a call of \<open>affix_region_table\<close> that
  returns, for every hole of the table that had affixes under the movie name, the caller's
  list for that hole is the sorted list: the same intervals, ascending by start coordinate.
\<close>

theorem affix_bounds_sorted_in_place:
  assumes "affix_region_table original_region_table movie_name affix_bounds = Inr (out, affix_bounds')"
    and "hole_number \<in> set (map holeNumber original_region_table)"
    and "map_of affix_bounds (movie_name, hole_number) = Some affs"
  shows "map_of affix_bounds' (movie_name, hole_number) = Some (sort affs)
       \<and> sorted (map fst (sort affs)) \<and> mset (sort affs) = mset affs"
proof -
  let ?hs = "numpy_unique (map holeNumber original_region_table)"
  have hs: "distinct ?hs" "set ?hs = set (map holeNumber original_region_table)"
    using numpy_unique_props[of "map holeNumber original_region_table"] by simp_all
  from region_loop_affix_bounds[OF assms(1)[unfolded affix_region_table_def] hs(1),
      of "(movie_name, hole_number)"] assms(2,3) hs(2)
  have "map_of affix_bounds' (movie_name, hole_number) = Some (sort affs)" by auto
  moreover have "sorted (map fst (sort affs))" by (rule sorted_lex_fst) simp
  ultimately show ?thesis by simp
qed

theorem affix_bounds_sorted_in_place_witness:
  "affix_region_table example_table ''m1'' example_affix_bounds
     = Inr (example_output, [((''m1'', 9), [(0, 100), (950, 1000), (1100, 1300)])])
   \<and> 9 \<in> set (map holeNumber example_table)
   \<and> map_of example_affix_bounds (''m1'', 9) = Some [(1100, 1300), (0, 100), (950, 1000)]
   \<and> map_of ([((''m1'', 9), [(0, 100), (950, 1000), (1100, 1300)])] :: affix_bounds) (''m1'', 9)
       = Some (sort ([(1100, 1300), (0, 100), (950, 1000)] :: bounds list))
   \<and> sorted (map fst (sort ([(1100, 1300), (0, 100), (950, 1000)] :: bounds list)))"
proof -
  have h1: "affix_region_table example_table ''m1'' example_affix_bounds
     = Inr (example_output, [((''m1'', 9), [(0, 100), (950, 1000), (1100, 1300)])])"
    by (simp add: eval_region)
  have h2: "9 \<in> set (map holeNumber example_table)" by (simp add: example_table_def)
  have h3: "map_of example_affix_bounds (''m1'', 9) = Some [(1100, 1300), (0, 100), (950, 1000)]"
    by (simp add: example_affix_bounds_def)
  from affix_bounds_sorted_in_place[OF h1 h2 h3] h1 h2 h3 show ?thesis by blast
qed

section \<open>Properties of the report and of the uniqueness filter\<close>

lemma output_line_Inr_iff:
  "(\<exists>cells. output_line rm = Inr cells) \<longleftrightarrow> map_of rm ''primary'' \<noteq> None"
  by (auto simp: output_line_def split: option.splits)

lemma write_rows_Inr:
  assumes "write_rows xs = Inr rows"
  shows "length rows = length (filter has_primary xs)
       \<and> filter is_row rows = rows
       \<and> length (filter (\<lambda>(subread_bounds, subread_alns). subread_alns \<noteq> None) xs)
           = length (filter has_primary xs)"
  using assms
proof (induction xs arbitrary: rows rule: write_rows.induct)
  case 1
  then show ?case by simp
next
  case (2 subread_bounds rest)
  then show ?case by (simp add: has_primary_def)
next
  case (3 subread_bounds subread_alns rest)
  from "3.prems" obtain cells rows' where
    c: "output_line subread_alns = Inr cells" and r: "write_rows rest = Inr rows'"
    and rows: "rows = Row cells # rows'"
    by (auto split: sum.splits)
  from c output_line_Inr_iff[of subread_alns] have "has_primary (subread_bounds, Some subread_alns)"
    by (auto simp: has_primary_def)
  with "3.IH"[OF c r] rows show ?case by simp
qed

lemma write_rows_total:
  assumes "\<forall>(subread_bounds, subread_alns) \<in> set xs.
     subread_alns \<noteq> None \<longrightarrow> has_primary (subread_bounds, subread_alns)"
  shows "\<exists>rows. write_rows xs = Inr rows"
  using assms
proof (induction xs rule: write_rows.induct)
  case 1
  then show ?case by simp
next
  case (2 subread_bounds rest)
  then show ?case by simp
next
  case (3 subread_bounds subread_alns rest)
  from "3.prems" have "map_of subread_alns ''primary'' \<noteq> None"
    by (simp add: has_primary_def)
  with output_line_Inr_iff[of subread_alns] obtain cells where
    c: "output_line subread_alns = Inr cells" by blast
  from "3.IH"[OF c] "3.prems" obtain rows where "write_rows rest = Inr rows" by auto
  with c show ?case by simp
qed


lemma scan_roles_True: "scan_roles ks True rm = Inl RuntimeError"
  by (cases ks) simp_all

lemma scan_roles_step:
  "scan_roles (k # ks) False rm =
     (if is_affix_type k then
        (case map_of rm k of
           None \<Rightarrow> Inl KeyError
         | Some d \<Rightarrow> if map_qv d < 254 then Inl RuntimeError else scan_roles ks False rm)
      else scan_roles ks False rm)"
  unfolding is_affix_type_def scan_roles.simps(3) scan_roles_True ..

lemma scan_roles_Inr:
  "scan_roles ks False rm = Inr rm' \<longleftrightarrow>
     rm' = rm \<and> (\<forall>k \<in> set ks. is_affix_type k \<longrightarrow>
                    (\<exists>d. map_of rm k = Some d \<and> 254 \<le> map_qv d))"
proof (induction ks)
  case Nil
  show ?case by auto
next
  case (Cons k ks)
  show ?case
  proof (cases "is_affix_type k")
    case False
    with Cons show ?thesis by (simp add: scan_roles_step del: scan_roles.simps)
  next
    case True
    show ?thesis
    proof (cases "map_of rm k")
      case None
      with True show ?thesis by (simp add: scan_roles_step del: scan_roles.simps)
    next
      case (Some d)
      with True Cons show ?thesis
        by (cases "map_qv d < 254") (auto simp: scan_roles_step simp del: scan_roles.simps)
    qed
  qed
qed


lemma filter_roles_Inr:
  "filter_roles slot = Inr slot' \<longleftrightarrow>
     slot' = slot \<and> (\<exists>rm. slot = Some rm \<and>
        (\<forall>k \<in> fst ` set rm. is_affix_type k \<longrightarrow> (\<exists>d. map_of rm k = Some d \<and> 254 \<le> map_qv d)))"
proof (cases slot)
  case None
  then show ?thesis by simp
next
  case (Some rm)
  show ?thesis
  proof (cases "scan_roles (map fst rm) False rm")
    case (Inl e)
    with scan_roles_Inr[of "map fst rm" rm rm] Some show ?thesis by auto
  next
    case (Inr rm')
    with scan_roles_Inr[of "map fst rm" rm rm'] Some show ?thesis by auto
  qed
qed

lemma remove_nonunique_subreads_Inr:
  "remove_nonunique_subreads subs = Inr subs' \<longleftrightarrow> subs' = subs \<and> (\<forall>entry \<in> set subs. unique_ok entry)"
proof (induction subs arbitrary: subs')
  case Nil
  show ?case by auto
next
  case (Cons p subs)
  obtain b slot where p: "p = (b, slot)" by (cases p)
  show ?case
  proof (cases "filter_roles slot")
    case (Inl e)
    with filter_roles_Inr[of slot slot] p show ?thesis by (auto simp: unique_ok_def)
  next
    case (Inr slot')
    with filter_roles_Inr[of slot slot'] have s: "slot' = slot" and u: "unique_ok (b, slot)"
      by (auto simp: unique_ok_def)
    show ?thesis
    proof (cases "remove_nonunique_subreads subs")
      case (Inl e)
      with Cons.IH[of subs] Inr p show ?thesis by auto
    next
      case r: (Inr rest')
      with Cons.IH[of rest'] Inr p s u show ?thesis by auto
    qed
  qed
qed

lemma remove_nonunique_alignments_Inr:
  "remove_nonunique_alignments d = Inr d' \<longleftrightarrow>
     d' = d \<and> (\<forall>entry \<in> set (all_subreads d). unique_ok entry)"
proof (induction d arbitrary: d')
  case Nil
  show ?case by (auto simp: all_subreads_def)
next
  case (Cons p d)
  obtain key subs where p: "p = (key, subs)" by (cases p)
  show ?case
  proof (cases "remove_nonunique_subreads subs")
    case (Inl e)
    with remove_nonunique_subreads_Inr[of subs subs] p show ?thesis
      by (auto simp: all_subreads_def)
  next
    case (Inr subs')
    with remove_nonunique_subreads_Inr[of subs subs'] have s: "subs' = subs"
      and u: "\<forall>entry \<in> set subs. unique_ok entry" by auto
    show ?thesis
    proof (cases "remove_nonunique_alignments d")
      case (Inl e)
      with Cons.IH[of d] Inr p show ?thesis by (auto simp: all_subreads_def)
    next
      case r: (Inr rest')
      with Cons.IH[of rest'] Inr p s u show ?thesis by (auto simp: all_subreads_def)
    qed
  qed
qed

text \<open>
  Claim C7 (report completeness).  For a dictionary in which every role map holds a primary
  role, as the two passes of \<open>create_pbbridgemapper_output\<close> leave it (\<open>aggregate_Inr\<close>),
  \<open>write_split_reads_file\<close> writes the report: the number of its data lines is the number
  of subreads whose role map holds a primary role (a subread whose entry is \<open>None\<close> gives no
  line), and the count that \<open>count_subreads\<close> computes and the second header line prints is
  that same number.
\<close>

theorem report_completeness:
  assumes "slots_ok subread_dict"
  shows "\<exists>lines. write_split_reads_file subread_dict = Inr lines
           \<and> length (data_rows lines) = with_primary subread_dict
           \<and> count_subreads subread_dict = with_primary subread_dict
           \<and> lines ! 1 = Text (''##Total Subreads: '' @ str_nat (with_primary subread_dict))
           \<and> length lines = 3 + with_primary subread_dict"
proof -
  from assms have ok: "\<forall>(subread_bounds, subread_alns) \<in> set (all_subreads subread_dict).
     subread_alns \<noteq> None \<longrightarrow> has_primary (subread_bounds, subread_alns)"
    by (auto simp: slots_ok_def)
  from write_rows_total[OF ok] obtain rows where
    r: "write_rows (all_subreads subread_dict) = Inr rows" by blast
  let ?lines = "[Text (''##pbbridgemapper version '' @ get_full_version),
                 Text (''##Total Subreads: '' @ str_nat (count_subreads subread_dict)),
                 Text (''##'' @ join_tab OUTPUT_COLUMNS)] @ rows"
  from r have w: "write_split_reads_file subread_dict = Inr ?lines"
    by (simp add: write_split_reads_file_def Let_def)
  from write_rows_Inr[OF r] have n: "length rows = with_primary subread_dict"
    and f: "filter is_row rows = rows"
    and c: "count_subreads subread_dict = with_primary subread_dict"
    by (simp_all add: with_primary_def count_subreads_def)
  from n f c have "length (data_rows ?lines) = with_primary subread_dict
      \<and> count_subreads subread_dict = with_primary subread_dict
      \<and> ?lines ! 1 = Text (''##Total Subreads: '' @ str_nat (with_primary subread_dict))
      \<and> length ?lines = 3 + with_primary subread_dict"
    by (simp add: data_rows_def)
  with w show ?thesis by blast
qed

theorem report_completeness_witness:
  "write_split_reads_file example_roles = Inr example_report
   \<and> with_primary example_roles = 1
   \<and> count_subreads example_roles = 1
   \<and> length (data_rows example_report) = 1
   \<and> example_report ! 1 = Text ''##Total Subreads: 1''
   \<and> length example_report = 4"
proof -
  have h: "slots_ok example_roles"
    by (simp add: slots_ok_def all_subreads_def example_roles_def has_primary_def)
  have e: "write_split_reads_file example_roles = Inr example_report"
    by (simp add: write_split_reads_file_def example_roles_def example_report_def
        all_subreads_def count_subreads_def output_line_def)
  have w: "with_primary example_roles = 1"
    by (simp add: with_primary_def all_subreads_def example_roles_def has_primary_def)
  have s: "str_nat 1 = ''1''" by (simp add: str_nat.simps)
  from report_completeness[OF h] obtain lines where
    l: "write_split_reads_file example_roles = Inr lines"
    and p: "length (data_rows lines) = with_primary example_roles"
      "count_subreads example_roles = with_primary example_roles"
      "lines ! 1 = Text (''##Total Subreads: '' @ str_nat (with_primary example_roles))"
      "length lines = 3 + with_primary example_roles"
    by blast
  from l e have "lines = example_report" by simp
  with p e w s show ?thesis by simp
qed

text \<open>
  Claim C6 (uniqueness filter) fails on the code: \<open>remove_nonunique_alignments\<close> pops from
  the dictionary that its loop iterates, so the first removal makes the loop raise
  \<open>RuntimeError\<close>; and a subread without alignments, whose value is \<open>None\<close>, makes it raise
  \<open>TypeError\<close>.  Here the function is run on a role map with a primary alignment of map
  quality 254 and a suffix of map quality 200, and on a dictionary with an empty subread.
  By \<open>remove_nonunique_alignments_Inr\<close>, the function returns only when there is nothing
  to remove and no empty subread, and then returns its argument unchanged.
\<close>

theorem remove_nonunique_raises:
  "remove_nonunique_alignments example_roles = Inl RuntimeError
   \<and> map_option map_qv (role_at example_roles (''m1'', 1) (0, 1000) ''suffix'') = Some 200
   \<and> remove_nonunique_alignments
        [((''m1'', 1), [((0, 1000),
           Some [(''primary'', alignment_to_output_dict (mk_alignment 1 100 900 254) (0, 1000))]),
           ((1100, 2000), None)])] = Inl TypeError"
  by (simp add: example_roles_def role_at_def alignment_to_output_dict_def mk_alignment_def)

section \<open>Properties of the aggregation\<close>

lemmas eval_aggregate =
  aggregate_def primary_step_def affix_step_def read_existing_def replace_test_def
  affix_type_of_def find_subread_entry_def intersectRanges_def example_dict_def Let_def

lemma primary_step_gap:
  assumes "find_subread_entry a d = (Some key, None)"
  shows "primary_step (d, loc) a = Inl KeyError"
proof -
  from assms obtain subs where "map_of d key = Some subs"
    by (auto simp: find_subread_entry_def Let_def split: option.splits)
  with assms show ?thesis by (simp add: primary_step_def)
qed

lemma affix_step_gap:
  assumes "find_subread_entry a d = (Some key, None)"
  shows "affix_step d a = Inl KeyError"
proof -
  from assms obtain subs where "map_of d key = Some subs"
    by (auto simp: find_subread_entry_def Let_def split: option.splits)
  with assms show ?thesis by (simp add: affix_step_def)
qed


lemma all_subreads_set_slot:
  assumes "map_of d key = Some subs"
  shows "set (all_subreads (set_slot key b v subs d)) \<subseteq> insert (b, v) (set (all_subreads d))"
proof
  fix x assume "x \<in> set (all_subreads (set_slot key b v subs d))"
  then obtain k s where ks: "(k, s) \<in> set (AList.update key (AList.update b v subs) d)" and x: "x \<in> set s"
    by (auto simp: all_subreads_def set_slot_def)
  from assms have in_d: "(key, subs) \<in> set d" by (rule map_of_SomeD)
  from ks set_update_subset[of key "AList.update b v subs" d]
  consider "(k, s) = (key, AList.update b v subs)" | "(k, s) \<in> set d" by auto
  then show "x \<in> insert (b, v) (set (all_subreads d))"
  proof cases
    case 1
    with x set_update_subset[of b v subs] have "x = (b, v) \<or> x \<in> set subs" by auto
    with in_d show ?thesis by (force simp: all_subreads_def)
  next
    case 2
    with x show ?thesis by (force simp: all_subreads_def)
  qed
qed

lemma same_index_set_slot:
  assumes "map_of d key = Some subs" "b \<in> fst ` set subs"
  shows "same_index d (set_slot key b v subs d)"
  using assms unfolding same_index_def set_slot_def
  by (auto simp: update_conv' update_keys)

lemma same_index_find:
  assumes "same_index d d'"
  shows "find_subread_entry a d' = find_subread_entry a d"
proof -
  let ?k = "(movieName a, HoleNumber a)"
  from assms have "map_option (map fst) (map_of d' ?k) = map_option (map fst) (map_of d ?k)"
    unfolding same_index_def by blast
  then show ?thesis
    by (cases "map_of d ?k"; cases "map_of d' ?k") (auto simp: find_subread_entry_def Let_def)
qed

lemma same_index_refl: "same_index d d"
  by (simp add: same_index_def)

lemma same_index_trans: "same_index d d' \<Longrightarrow> same_index d' d'' \<Longrightarrow> same_index d d''"
  by (simp add: same_index_def)

lemma role_at_set_slot:
  assumes "map_of d key = Some subs"
  shows "role_at (set_slot key b v subs d) key' b' r =
     (if key' = key \<and> b' = b then (case v of None \<Rightarrow> None | Some rm \<Rightarrow> map_of rm r)
      else role_at d key' b' r)"
  using assms by (auto simp: role_at_def set_slot_def update_conv' split: option.splits)

text \<open>What a step of either pass does when it returns.\<close>

lemma primary_step_cases:
  assumes "primary_step (d, loc) a = Inr (d1, loc1)"
  shows "(find_subread_entry a d = (None, None) \<and> d1 = d \<and> loc1 = loc)
       \<or> (\<exists>key b subs slot.
             find_subread_entry a d = (Some key, Some b) \<and> map_of d key = Some subs
             \<and> map_of subs b = Some slot \<and> read_existing slot loc = Inr loc1
             \<and> ((replace_test loc1 a = Inr True
                  \<and> d1 = set_slot key b (Some [(''primary'', alignment_to_output_dict a b)]) subs d)
                 \<or> (replace_test loc1 a = Inr False \<and> d1 = d)))"
proof -
  from find_subread_entry_cases[of a d] consider
    (none) "find_subread_entry a d = (None, None)"
  | (gap) key where "find_subread_entry a d = (Some key, None)"
  | (hit) key b where "find_subread_entry a d = (Some key, Some b)"
    by blast
  then show ?thesis
  proof cases
    case none
    with assms show ?thesis by (simp add: primary_step_def)
  next
    case gap
    from primary_step_gap[OF gap, of loc] assms show ?thesis by simp
  next
    case hit
    with assms show ?thesis
      by (auto simp: primary_step_def set_slot_def split: option.splits sum.splits bool.splits)
  qed
qed


lemma slots_ok_set_slot:
  assumes "slots_ok d" "map_of d key = Some subs" "map_of rm ''primary'' \<noteq> None"
  shows "slots_ok (set_slot key b (Some rm) subs d)"
  unfolding slots_ok_def
proof
  fix entry assume "entry \<in> set (all_subreads (set_slot key b (Some rm) subs d))"
  with all_subreads_set_slot[OF assms(2), of b "Some rm"]
  have "entry = (b, Some rm) \<or> entry \<in> set (all_subreads d)" by auto
  with assms(1,3) show "snd entry \<noteq> None \<longrightarrow> has_primary entry"
    by (auto simp: slots_ok_def has_primary_def)
qed

lemma primary_step_Inr:
  assumes "primary_inv d loc" "primary_step (d, loc) a = Inr (d1, loc1)"
  shows "primary_inv d1 loc1 \<and> same_index d d1
       \<and> (\<forall>key b r. role_at d1 key b r =
            (if find_subread_entry a d = (Some key, Some b)
             then (if r = ''primary'' then Some (alignment_to_output_dict a b) else None)
             else role_at d key b r))"
proof -
  from primary_step_cases[OF assms(2)] consider
    (none) "find_subread_entry a d = (None, None)" "d1 = d" "loc1 = loc"
  | (hit) key b subs slot where
      "find_subread_entry a d = (Some key, Some b)" "map_of d key = Some subs"
      "map_of subs b = Some slot" "read_existing slot loc = Inr loc1"
      "(replace_test loc1 a = Inr True
          \<and> d1 = set_slot key b (Some [(''primary'', alignment_to_output_dict a b)]) subs d)
       \<or> (replace_test loc1 a = Inr False \<and> d1 = d)"
    by blast
  then show ?thesis
  proof cases
    case none
    with assms(1) show ?thesis by (simp add: same_index_refl)
  next
    case hit
    from hit(2,3) have in_all: "(b, slot) \<in> set (all_subreads d)"
      by (force simp: all_subreads_def dest: map_of_SomeD)
    from hit(3) have b_in: "b \<in> fst ` set subs" by (force dest: map_of_SomeD)
    have bound: "existing_aligment loc1 = Bound None"
    proof (cases slot)
      case None
      with hit(4) show ?thesis by (auto simp: read_existing_def)
    next
      case (Some rm)
      with in_all assms(1) have "existing_aligment loc = Bound None"
        by (auto simp: primary_inv_def)
      with Some hit(4) show ?thesis by (auto simp: read_existing_def split: option.splits)
    qed
    then have "replace_test loc1 a = Inr True" by (simp add: replace_test_def)
    with hit(5) have d1: "d1 = set_slot key b (Some [(''primary'', alignment_to_output_dict a b)]) subs d"
      by simp
    from assms(1) have "slots_ok d" by (simp add: primary_inv_def)
    from slots_ok_set_slot[OF this hit(2), of "[(''primary'', alignment_to_output_dict a b)]" b]
    have "slots_ok d1" unfolding d1 by simp
    with bound have 1: "primary_inv d1 loc1" by (simp add: primary_inv_def)
    have 2: "same_index d d1" unfolding d1 by (rule same_index_set_slot[OF hit(2) b_in])
    have 3: "\<forall>key' b' r. role_at d1 key' b' r =
            (if find_subread_entry a d = (Some key', Some b')
             then (if r = ''primary'' then Some (alignment_to_output_dict a b') else None)
             else role_at d key' b' r)"
      unfolding d1 role_at_set_slot[OF hit(2)] using hit(1) by auto
    from 1 2 3 show ?thesis by blast
  qed
qed

lemma primary_pass_Inr:
  assumes "primary_inv d loc" "primary_pass (d, loc) as = Inr (d', loc')"
  shows "primary_inv d' loc' \<and> same_index d d'
       \<and> (\<forall>key b r. role_at d' key b r =
            (if located d as key b = [] then role_at d key b r
             else if r = ''primary''
               then Some (alignment_to_output_dict (last (located d as key b)) b)
               else None))"
  using assms
proof (induction as arbitrary: d loc)
  case Nil
  then show ?case by (simp add: same_index_refl located_def)
next
  case (Cons a as)
  from Cons.prems(2) obtain d1 loc1 where
    s: "primary_step (d, loc) a = Inr (d1, loc1)" and r: "primary_pass (d1, loc1) as = Inr (d', loc')"
    by (auto split: sum.splits)
  from primary_step_Inr[OF Cons.prems(1) s] have
    i1: "primary_inv d1 loc1" and x1: "same_index d d1"
    and r1: "\<And>key b r. role_at d1 key b r =
            (if find_subread_entry a d = (Some key, Some b)
             then (if r = ''primary'' then Some (alignment_to_output_dict a b) else None)
             else role_at d key b r)"
    by blast+
  from Cons.IH[OF i1 r] have
    i2: "primary_inv d' loc'" and x2: "same_index d1 d'"
    and r2: "\<And>key b r. role_at d' key b r =
            (if located d1 as key b = [] then role_at d1 key b r
             else if r = ''primary''
               then Some (alignment_to_output_dict (last (located d1 as key b)) b)
               else None)"
    by blast+
  have loc_eq: "located d1 as key b = located d as key b" for key b
    by (simp add: located_def same_index_find[OF x1])
  have "role_at d' key b r =
            (if located d (a # as) key b = [] then role_at d key b r
             else if r = ''primary''
               then Some (alignment_to_output_dict (last (located d (a # as) key b)) b)
               else None)" for key b r
    unfolding r2 loc_eq r1 by (simp add: located_def)
  with i2 same_index_trans[OF x1 x2] show ?case by blast
qed


lemma affix_type_of_not_primary: "affix_type_of x p \<noteq> Some ''primary''"
  by (simp add: affix_type_of_def)

lemma affix_step_Inr:
  assumes "slots_ok d" "affix_step d a = Inr d1"
  shows "slots_ok d1 \<and> same_index d d1
       \<and> (\<forall>key b r. role_at d1 key b r =
            (if a \<in> set (classified d [a] key b r)
             then keep_better (role_at d key b r) (alignment_to_output_dict a b)
             else role_at d key b r))"
proof -
  from find_subread_entry_cases[of a d] consider
    (none) "find_subread_entry a d = (None, None)"
  | (gap) key where "find_subread_entry a d = (Some key, None)"
  | (hit) key b subs where "find_subread_entry a d = (Some key, Some b)"
      "map_of d key = Some subs" "b \<in> fst ` set subs"
    by blast
  then show ?thesis
  proof cases
    case none
    with assms show ?thesis by (simp add: affix_step_def classified_def same_index_refl)
  next
    case gap
    from affix_step_gap[OF gap] assms(2) show ?thesis by simp
  next
    case hit
    from hit(3) obtain slot where slot: "map_of subs b = Some slot"
      by (cases "map_of subs b") (auto simp: map_of_eq_None_iff)
    show ?thesis
    proof (cases slot)
      case None
      with hit(2) slot have "role_at d key b ''primary'' = None" by (simp add: role_at_def)
      with hit(1) have "classified d [a] key' b' r = []" for key' b' r
        by (auto simp: classified_def)
      moreover from None hit slot assms(2) have "d1 = d" by (simp add: affix_step_def)
      ultimately show ?thesis using assms(1) by (simp add: same_index_refl)
    next
      case (Some rm)
      let ?ad = "alignment_to_output_dict a b"
      from assms(2) hit slot Some obtain p where p: "map_of rm ''primary'' = Some p"
        by (auto simp: affix_step_def Let_def split: option.splits)
      have rp: "role_at d key b ''primary'' = Some p"
        using hit(2) slot Some p by (simp add: role_at_def)
      have rr: "role_at d key b r = map_of rm r" for r
        using hit(2) slot Some by (simp add: role_at_def)
      show ?thesis
      proof (cases "affix_type_of ?ad p")
        case None
        with hit(1) rp have "classified d [a] key' b' r = []" for key' b' r
          by (auto simp: classified_def)
        moreover from None hit slot Some p assms(2) have "d1 = d"
          by (simp add: affix_step_def Let_def)
        ultimately show ?thesis using assms(1) by (simp add: same_index_refl)
      next
        case t: (Some t)
        have cls: "a \<in> set (classified d [a] key' b' r) \<longleftrightarrow> key' = key \<and> b' = b \<and> r = t" for key' b' r
          using hit(1) rp t by (auto simp: classified_def)
        show ?thesis
        proof (cases "case map_of rm t of None \<Rightarrow> True | Some e \<Rightarrow> MapQV a > map_qv e")
          case False
          with assms(2) hit slot Some p t have d1: "d1 = d"
            by (simp add: affix_step_def Let_def)
          from False have "keep_better (map_of rm t) ?ad = map_of rm t"
            by (auto simp: keep_better_def alignment_to_output_dict_def split: option.splits)
          with d1 assms(1) cls rr show ?thesis
            by (auto simp: same_index_refl)
        next
          case True
          with assms(2) hit slot Some p t have
            d1: "d1 = set_slot key b (Some (AList.update t ?ad rm)) subs d"
            by (simp add: affix_step_def Let_def set_slot_def)
          from True have kb: "keep_better (map_of rm t) ?ad = Some ?ad"
            by (auto simp: keep_better_def alignment_to_output_dict_def split: option.splits)
          from t have "t \<noteq> ''primary''" using affix_type_of_not_primary[of ?ad p] by auto
          with p have "map_of (AList.update t ?ad rm) ''primary'' \<noteq> None"
            by (simp add: update_conv')
          from slots_ok_set_slot[OF assms(1) hit(2) this] have 1: "slots_ok d1"
            unfolding d1 .
          have 2: "same_index d d1" unfolding d1 by (rule same_index_set_slot[OF hit(2,3)])
          have 3: "\<forall>key' b' r. role_at d1 key' b' r =
            (if a \<in> set (classified d [a] key' b' r)
             then keep_better (role_at d key' b' r) (alignment_to_output_dict a b')
             else role_at d key' b' r)"
            unfolding d1 role_at_set_slot[OF hit(2)] cls
            using kb rr by (auto simp: update_conv')
          from 1 2 3 show ?thesis by blast
        qed
      qed
    qed
  qed
qed


lemma classified_Cons:
  "classified d (a # as) key b r = classified d [a] key b r @ classified d as key b r"
  by (simp add: classified_def)

lemma classified_same:
  assumes "same_index d d1" "role_at d1 key b ''primary'' = role_at d key b ''primary''"
  shows "classified d1 as key b r = classified d as key b r"
  using assms by (simp add: classified_def same_index_find)

lemma classified_primary: "classified d as key b ''primary'' = []"
  by (auto simp: classified_def affix_type_of_not_primary filter_empty_conv split: option.splits)

lemma affix_pass_Inr:
  assumes "slots_ok d" "affix_pass d as = Inr d'"
  shows "slots_ok d' \<and> same_index d d'
       \<and> (\<forall>key b r. role_at d' key b r =
            foldl keep_better (role_at d key b r)
              (map (\<lambda>a. alignment_to_output_dict a b) (classified d as key b r)))"
  using assms
proof (induction as arbitrary: d)
  case Nil
  then show ?case by (simp add: same_index_refl classified_def)
next
  case (Cons a as)
  from Cons.prems(2) obtain d1 where
    s: "affix_step d a = Inr d1" and r: "affix_pass d1 as = Inr d'"
    by (auto split: sum.splits)
  from affix_step_Inr[OF Cons.prems(1) s] have
    o1: "slots_ok d1" and x1: "same_index d d1"
    and r1: "\<And>key b r. role_at d1 key b r =
            (if a \<in> set (classified d [a] key b r)
             then keep_better (role_at d key b r) (alignment_to_output_dict a b)
             else role_at d key b r)"
    by blast+
  from Cons.IH[OF o1 r] have
    o2: "slots_ok d'" and x2: "same_index d1 d'"
    and r2: "\<And>key b r. role_at d' key b r =
            foldl keep_better (role_at d1 key b r)
              (map (\<lambda>a. alignment_to_output_dict a b) (classified d1 as key b r))"
    by blast+
  have prim: "role_at d1 key b ''primary'' = role_at d key b ''primary''" for key b
    unfolding r1 by (simp add: classified_primary)
  have single: "classified d [a] key b r = (if a \<in> set (classified d [a] key b r) then [a] else [])"
    for key b r
    by (simp add: classified_def)
  have "role_at d' key b r =
            foldl keep_better (role_at d key b r)
              (map (\<lambda>a. alignment_to_output_dict a b) (classified d (a # as) key b r))" for key b r
  proof (cases "a \<in> set (classified d [a] key b r)")
    case True
    with single[of key b r] have "classified d [a] key b r = [a]" by simp
    with True show ?thesis
      unfolding r2 classified_same[OF x1 prim] r1 classified_Cons[of d a as] by simp
  next
    case False
    with single[of key b r] have "classified d [a] key b r = []" by simp
    with False show ?thesis
      unfolding r2 classified_same[OF x1 prim] r1 classified_Cons[of d a as] by simp
  qed
  with o2 same_index_trans[OF x1 x2] show ?case by blast
qed

lemma foldl_keep_better_Some:
  "\<exists>pre x post. c # xs = pre @ x # post \<and> foldl keep_better (Some c) xs = Some x
     \<and> (\<forall>y \<in> set pre. map_qv y < map_qv x) \<and> (\<forall>z \<in> set post. map_qv z \<le> map_qv x)"
proof (induction xs arbitrary: c)
  case Nil
  show ?case by (rule exI[of _ "[]"]) simp
next
  case (Cons y ys)
  show ?case
  proof (cases "map_qv y > map_qv c")
    case True
    from Cons.IH[of y] obtain pre x post where
      e: "y # ys = pre @ x # post" and f: "foldl keep_better (Some y) ys = Some x"
      and p: "\<forall>u \<in> set pre. map_qv u < map_qv x" and q: "\<forall>z \<in> set post. map_qv z \<le> map_qv x"
      by blast
    from e p have "map_qv y \<le> map_qv x" by (cases pre) auto
    with True have "map_qv c < map_qv x" by simp
    with p have p': "\<forall>u \<in> set (c # pre). map_qv u < map_qv x" by simp
    from e have e': "c # y # ys = (c # pre) @ x # post" by simp
    from True f have f': "foldl keep_better (Some c) (y # ys) = Some x"
      by (simp add: keep_better_def)
    from e' f' p' q show ?thesis by blast
  next
    case False
    from Cons.IH[of c] obtain pre x post where
      e: "c # ys = pre @ x # post" and f: "foldl keep_better (Some c) ys = Some x"
      and p: "\<forall>u \<in> set pre. map_qv u < map_qv x" and q: "\<forall>z \<in> set post. map_qv z \<le> map_qv x"
      by blast
    from False f have f': "foldl keep_better (Some c) (y # ys) = Some x"
      by (simp add: keep_better_def)
    show ?thesis
    proof (cases pre)
      case Nil
      with e have "x = c" "post = ys" by simp_all
      with False q have "c # y # ys = [] @ x # (y # post)" "\<forall>z \<in> set (y # post). map_qv z \<le> map_qv x"
        by simp_all
      with f' show ?thesis by (metis empty_iff empty_set)
    next
      case (Cons c' pre')
      with e have c': "c' = c" and ys: "ys = pre' @ x # post" by simp_all
      from p Cons c' have "map_qv c < map_qv x" by simp
      with False have "map_qv y < map_qv x" by simp
      with p Cons c' have "\<forall>u \<in> set (c # y # pre'). map_qv u < map_qv x" by simp
      moreover from ys have "c # y # ys = (c # y # pre') @ x # post" by simp
      ultimately show ?thesis using f' q by blast
    qed
  qed
qed

lemma foldl_keep_better_None:
  assumes "xs \<noteq> []"
  shows "\<exists>pre x post. xs = pre @ x # post \<and> foldl keep_better None xs = Some x
     \<and> (\<forall>y \<in> set pre. map_qv y < map_qv x) \<and> (\<forall>z \<in> set post. map_qv z \<le> map_qv x)"
proof -
  from assms obtain c ys where xs: "xs = c # ys" by (cases xs) auto
  from foldl_keep_better_Some[of c ys] xs show ?thesis by (simp add: keep_better_def)
qed

text \<open>The prefix and suffix slots do hold the best record, the first of the best on a tie.\<close>

lemma affix_roles_best:
  assumes "slots_ok d" "affix_pass d as = Inr d'"
    and "role_at d key b r = None" "classified d as key b r \<noteq> []"
  shows "\<exists>pre x post.
           map (\<lambda>a. alignment_to_output_dict a b) (classified d as key b r) = pre @ x # post
         \<and> role_at d' key b r = Some x
         \<and> (\<forall>y \<in> set pre. map_qv y < map_qv x) \<and> (\<forall>z \<in> set post. map_qv z \<le> map_qv x)"
proof -
  from affix_pass_Inr[OF assms(1,2)]
  have "role_at d' key b r =
      foldl keep_better (role_at d key b r)
        (map (\<lambda>a. alignment_to_output_dict a b) (classified d as key b r))"
    by blast
  with assms(3) have "role_at d' key b r =
      foldl keep_better None (map (\<lambda>a. alignment_to_output_dict a b) (classified d as key b r))"
    by simp
  with foldl_keep_better_None[of "map (\<lambda>a. alignment_to_output_dict a b) (classified d as key b r)"]
    assms(4) show ?thesis by simp
qed


lemma fresh_primary_inv:
  "fresh d \<Longrightarrow> primary_inv d \<lparr>existing_alignment = Unbound, existing_aligment = Unbound\<rparr>"
  by (auto simp: fresh_def primary_inv_def slots_ok_def)

lemma fresh_role_at: "fresh d \<Longrightarrow> role_at d key b r = None"
proof -
  assume f: "fresh d"
  show ?thesis
  proof (cases "map_of d key")
    case None
    then show ?thesis by (simp add: role_at_def)
  next
    case (Some subs)
    show ?thesis
    proof (cases "map_of subs b")
      case None
      with Some show ?thesis by (simp add: role_at_def)
    next
      case s: (Some slot)
      with Some have "(b, slot) \<in> set (all_subreads d)"
        by (force simp: all_subreads_def dest: map_of_SomeD)
      with f have "slot = None" by (auto simp: fresh_def)
      with Some s show ?thesis by (simp add: role_at_def)
    qed
  qed
qed

text \<open>From a fresh dictionary, the primary slot of a subread after the first pass is the
  record of the last primary alignment located in it, whatever the map qualities.\<close>

lemma primary_pass_keeps_last:
  assumes "fresh d"
    and "primary_pass (d, \<lparr>existing_alignment = Unbound, existing_aligment = Unbound\<rparr>) as
           = Inr (d', loc')"
  shows "role_at d' key b ''primary'' =
     (if located d as key b = [] then None
      else Some (alignment_to_output_dict (last (located d as key b)) b))"
proof -
  from primary_pass_Inr[OF fresh_primary_inv[OF assms(1)] assms(2)]
  have "role_at d' key b ''primary'' =
            (if located d as key b = [] then role_at d key b ''primary''
             else if ''primary'' = ''primary''
               then Some (alignment_to_output_dict (last (located d as key b)) b)
               else None)"
    by blast
  then show ?thesis by (simp add: fresh_role_at[OF assms(1)])
qed

lemma primary_step_Inl:
  assumes "primary_inv d loc" "primary_step (d, loc) a = Inl e"
  shows "e = KeyError \<and> (\<exists>key. find_subread_entry a d = (Some key, None))"
proof -
  from find_subread_entry_cases[of a d] consider
    (none) "find_subread_entry a d = (None, None)"
  | (gap) key where "find_subread_entry a d = (Some key, None)"
  | (hit) key b subs where "find_subread_entry a d = (Some key, Some b)"
      "map_of d key = Some subs" "b \<in> fst ` set subs"
    by blast
  then show ?thesis
  proof cases
    case none
    with assms(2) show ?thesis by (simp add: primary_step_def)
  next
    case gap
    from primary_step_gap[OF gap, of loc] assms(2) gap show ?thesis by auto
  next
    case hit
    from hit(3) obtain slot where slot: "map_of subs b = Some slot"
      by (cases "map_of subs b") (auto simp: map_of_eq_None_iff)
    with hit(2) have in_all: "(b, slot) \<in> set (all_subreads d)"
      by (force simp: all_subreads_def dest: map_of_SomeD)
    have "\<exists>loc1. read_existing slot loc = Inr loc1 \<and> existing_aligment loc1 = Bound None"
    proof (cases slot)
      case None
      then show ?thesis by (simp add: read_existing_def)
    next
      case (Some rm)
      with in_all assms(1) have "existing_aligment loc = Bound None" "map_of rm ''primary'' \<noteq> None"
        by (auto simp: primary_inv_def slots_ok_def has_primary_def)
      with Some show ?thesis by (auto simp: read_existing_def)
    qed
    then obtain loc1 where "read_existing slot loc = Inr loc1" "replace_test loc1 a = Inr True"
      by (auto simp: replace_test_def)
    with hit slot assms(2) show ?thesis by (simp add: primary_step_def)
  qed
qed

lemma primary_pass_Inl:
  assumes "primary_inv d loc"
  shows "primary_pass (d, loc) as = Inl e \<longleftrightarrow> e = KeyError \<and> in_gap d as"
  using assms
proof (induction as arbitrary: d loc)
  case Nil
  then show ?case by (simp add: in_gap_def)
next
  case (Cons a as)
  show ?case
  proof (cases "primary_step (d, loc) a")
    case (Inl e')
    with primary_step_Inl[OF Cons.prems Inl] show ?thesis by (auto simp: in_gap_def)
  next
    case (Inr st)
    obtain d1 loc1 where st: "st = (d1, loc1)" by (cases st)
    from primary_step_Inr[OF Cons.prems Inr[unfolded st]] have
      i1: "primary_inv d1 loc1" and x1: "same_index d d1" by blast+
    have ng: "\<not> (\<exists>key. find_subread_entry a d = (Some key, None))"
      using primary_step_gap[of a d _ loc] Inr by auto
    have "in_gap d1 as = in_gap d as" by (simp add: in_gap_def same_index_find[OF x1])
    with Cons.IH[OF i1] Inr st ng show ?thesis by (auto simp: in_gap_def)
  qed
qed

lemma affix_step_Inl:
  assumes "slots_ok d" "affix_step d a = Inl e"
  shows "e = KeyError \<and> (\<exists>key. find_subread_entry a d = (Some key, None))"
proof -
  from find_subread_entry_cases[of a d] consider
    (none) "find_subread_entry a d = (None, None)"
  | (gap) key where "find_subread_entry a d = (Some key, None)"
  | (hit) key b subs where "find_subread_entry a d = (Some key, Some b)"
      "map_of d key = Some subs" "b \<in> fst ` set subs"
    by blast
  then show ?thesis
  proof cases
    case none
    with assms(2) show ?thesis by (simp add: affix_step_def)
  next
    case gap
    from affix_step_gap[OF gap] assms(2) gap show ?thesis by auto
  next
    case hit
    from hit(3) obtain slot where slot: "map_of subs b = Some slot"
      by (cases "map_of subs b") (auto simp: map_of_eq_None_iff)
    with hit(2) have in_all: "(b, slot) \<in> set (all_subreads d)"
      by (force simp: all_subreads_def dest: map_of_SomeD)
    show ?thesis
    proof (cases slot)
      case None
      with hit slot assms(2) show ?thesis by (simp add: affix_step_def)
    next
      case (Some rm)
      with in_all assms(1) have "has_primary (b, Some rm)"
        by (force simp: slots_ok_def)
      then obtain p where "map_of rm ''primary'' = Some p"
        by (auto simp: has_primary_def)
      with Some hit slot assms(2) show ?thesis
        by (auto simp: affix_step_def Let_def split: option.splits if_splits)
    qed
  qed
qed

lemma affix_pass_Inl:
  assumes "slots_ok d"
  shows "affix_pass d as = Inl e \<longleftrightarrow> e = KeyError \<and> in_gap d as"
  using assms
proof (induction as arbitrary: d)
  case Nil
  then show ?case by (simp add: in_gap_def)
next
  case (Cons a as)
  show ?case
  proof (cases "affix_step d a")
    case (Inl e')
    with affix_step_Inl[OF Cons.prems Inl] show ?thesis by (auto simp: in_gap_def)
  next
    case (Inr d1)
    from affix_step_Inr[OF Cons.prems Inr] have
      o1: "slots_ok d1" and x1: "same_index d d1" by blast+
    have ng: "\<not> (\<exists>key. find_subread_entry a d = (Some key, None))"
      using affix_step_gap[of a d] Inr by auto
    have "in_gap d1 as = in_gap d as" by (simp add: in_gap_def same_index_find[OF x1])
    with Cons.IH[OF o1] Inr ng show ?thesis by (auto simp: in_gap_def)
  qed
qed

text \<open>The two passes return unless an alignment falls in a gap, and then every role map has
  a primary role.\<close>

lemma aggregate_Inr:
  assumes "fresh d" "aggregate d ps as = Inr d'"
  shows "slots_ok d' \<and> same_index d d'"
proof -
  from assms(2) obtain d1 loc1 where
    p: "primary_pass (d, \<lparr>existing_alignment = Unbound, existing_aligment = Unbound\<rparr>) ps
          = Inr (d1, loc1)"
    and a: "affix_pass d1 as = Inr d'"
    by (auto simp: aggregate_def split: sum.splits)
  from primary_pass_Inr[OF fresh_primary_inv[OF assms(1)] p] have
    o1: "slots_ok d1" and x1: "same_index d d1" by (auto simp: primary_inv_def)
  from affix_pass_Inr[OF o1 a] have "slots_ok d'" "same_index d1 d'" by blast+
  with x1 show ?thesis by (auto intro: same_index_trans)
qed

lemma aggregate_Inl:
  assumes "fresh d"
  shows "aggregate d ps as = Inl e \<longleftrightarrow> e = KeyError \<and> (in_gap d ps \<or> in_gap d as)"
proof (cases "primary_pass (d, \<lparr>existing_alignment = Unbound, existing_aligment = Unbound\<rparr>) ps")
  case (Inl e')
  with primary_pass_Inl[OF fresh_primary_inv[OF assms], of ps e'] show ?thesis
    by (auto simp: aggregate_def)
next
  case (Inr st)
  obtain d1 loc1 where st: "st = (d1, loc1)" by (cases st)
  from primary_pass_Inr[OF fresh_primary_inv[OF assms] Inr[unfolded st]] have
    o1: "slots_ok d1" and x1: "same_index d d1" by (auto simp: primary_inv_def)
  from primary_pass_Inl[OF fresh_primary_inv[OF assms], of ps KeyError] Inr
  have g1: "\<not> in_gap d ps" by auto
  have g: "in_gap d1 as = in_gap d as" by (simp add: in_gap_def same_index_find[OF x1])
  from Inr st have "aggregate d ps as = affix_pass d1 as" by (simp add: aggregate_def)
  with affix_pass_Inl[OF o1, of as e] g g1 show ?thesis by simp
qed

lemma write_split_reads_file_total:
  assumes "slots_ok d"
  shows "\<exists>lines. write_split_reads_file d = Inr lines"
proof -
  from assms have "\<forall>(subread_bounds, subread_alns) \<in> set (all_subreads d).
     subread_alns \<noteq> None \<longrightarrow> has_primary (subread_bounds, subread_alns)"
    by (auto simp: slots_ok_def)
  from write_rows_total[OF this] show ?thesis
    by (auto simp: write_split_reads_file_def Let_def)
qed

text \<open>Without the uniqueness filter, the report is written unless an alignment falls in a
  gap.\<close>

lemma create_pbbridgemapper_output_returns:
  assumes "fresh d"
  shows "(\<exists>lines. create_pbbridgemapper_output d ps as False = Inr lines)
         \<longleftrightarrow> \<not> in_gap d ps \<and> \<not> in_gap d as"
proof (cases "aggregate d ps as")
  case (Inl e)
  with aggregate_Inl[OF assms, of ps as e] show ?thesis
    by (auto simp: create_pbbridgemapper_output_def)
next
  case (Inr d')
  from aggregate_Inr[OF assms Inr] have "slots_ok d'" by simp
  from write_split_reads_file_total[OF this] obtain lines where
    "write_split_reads_file d' = Inr lines" by blast
  with Inr have 1: "\<exists>lines. create_pbbridgemapper_output d ps as False = Inr lines"
    by (simp add: create_pbbridgemapper_output_def)
  from aggregate_Inl[OF assms, of ps as KeyError] Inr
  have "\<not> in_gap d ps \<and> \<not> in_gap d as" by auto
  with 1 show ?thesis by simp
qed


lemma write_split_reads_file_rows:
  assumes "write_split_reads_file d = Inr lines"
  shows "length (data_rows lines) = with_primary d \<and> count_subreads d = with_primary d"
proof -
  from assms obtain rows where r: "write_rows (all_subreads d) = Inr rows"
    and l: "lines = [Text (''##pbbridgemapper version '' @ get_full_version),
                   Text (''##Total Subreads: '' @ str_nat (count_subreads d)),
                   Text (''##'' @ join_tab OUTPUT_COLUMNS)] @ rows"
    by (auto simp: write_split_reads_file_def Let_def split: sum.splits)
  from write_rows_Inr[OF r] l show ?thesis
    by (simp add: data_rows_def with_primary_def count_subreads_def)
qed

text \<open>The report of \<open>create_pbbridgemapper_output\<close>, with or without the uniqueness filter,
  has one data line for each subread that holds a primary role after the two passes.\<close>

lemma create_pbbridgemapper_output_rows:
  assumes "create_pbbridgemapper_output d ps as unique_only = Inr lines"
  shows "\<exists>d'. aggregate d ps as = Inr d' \<and> length (data_rows lines) = with_primary d'"
proof -
  from assms obtain d' d'' where a: "aggregate d ps as = Inr d'"
    and u: "(if unique_only then remove_nonunique_alignments d' else Inr d') = Inr d''"
    and w: "write_split_reads_file d'' = Inr lines"
    by (auto simp: create_pbbridgemapper_output_def split: sum.splits)
  from u remove_nonunique_alignments_Inr[of d' d''] have "d'' = d'"
    by (cases unique_only) auto
  with a w write_split_reads_file_rows[of d' lines] show ?thesis by simp
qed

text \<open>
  Claim C3 (alignment in a gap) fails on the code.  For an alignment whose key is in the
  dictionary and whose read interval overlaps none of the subreads of the key,
  \<open>find_subread_entry\<close> returns the key with \<open>None\<close> for the bounds; its callers test only
  \<open>key is None\<close> and then index a dictionary with \<open>None\<close>, which raises \<open>KeyError\<close>: in
  \<open>affix_boundaries\<close>, in the pass over the primary alignments and in the pass over the affix
  alignments (\<open>affix_boundaries_fails\<close>, \<open>primary_step_gap\<close>, \<open>affix_step_gap\<close>).  Here the
  alignment \<open>(1020, 1080)\<close> falls between the subreads \<open>(0, 1000)\<close> and \<open>(1100, 2000)\<close>.
\<close>

theorem gap_alignment_raises:
  "find_subread_entry (mk_alignment 1 1020 1080 254) (example_dict :: all_subread_dict)
     = (Some (''m1'', 1), None)
   \<and> affix_boundaries (example_dict :: all_subread_dict) [mk_alignment 1 1020 1080 254] 50
     = Inl KeyError
   \<and> aggregate example_dict [mk_alignment 1 1020 1080 254] [] = Inl KeyError
   \<and> aggregate example_dict [mk_alignment 1 100 900 254] [mk_alignment 1 1020 1080 254]
     = Inl KeyError"
proof -
  have 1: "find_subread_entry (mk_alignment 1 1020 1080 254) (example_dict :: all_subread_dict)
     = (Some (''m1'', 1), None)"
    by (simp add: eval_affix)
  have 2: "affix_boundaries (example_dict :: all_subread_dict) [mk_alignment 1 1020 1080 254] 50
     = Inl KeyError"
    by (simp add: eval_affix)
  have 3: "aggregate example_dict [mk_alignment 1 1020 1080 254] [] = Inl KeyError"
    by (simp add: eval_aggregate mk_alignment_def)
  have 4: "aggregate example_dict [mk_alignment 1 100 900 254] [mk_alignment 1 1020 1080 254]
     = Inl KeyError"
    by (simp add: eval_aggregate mk_alignment_def)
  from 1 2 3 4 show ?thesis by blast
qed

text \<open>
  Claim C1 (best of quality) fails on the code for the primary role.  Line 194 assigns
  \<open>existing_aligment\<close>, a misspelling of \<open>existing_alignment\<close>, and line 196 tests the
  misspelt variable, which is \<open>None\<close> from the first alignment on; the map qualities are
  never compared and every located primary alignment replaces the one before.  Here two
  primary alignments of the subread \<open>(0, 1000)\<close> arrive with map qualities 20 then 10, and
  then with 20 and 20: the record retained is that of the second alignment both times.
  In general the primary slot holds the last located alignment
  (\<open>primary_pass_keeps_last\<close>), while the prefix and suffix slots do hold the record of
  the highest map quality, the first of them on a tie (\<open>affix_roles_best\<close>).
\<close>

theorem primary_keeps_last:
  "aggregate example_dict [mk_alignment 1 100 900 20, mk_alignment 1 120 880 10] []
     = Inr [((''m1'', 1),
             [((0, 1000),
               Some [(''primary'', alignment_to_output_dict (mk_alignment 1 120 880 10) (0, 1000))]),
              ((1100, 2000), None)])]
   \<and> aggregate example_dict [mk_alignment 1 100 900 20, mk_alignment 1 120 880 20] []
     = Inr [((''m1'', 1),
             [((0, 1000),
               Some [(''primary'', alignment_to_output_dict (mk_alignment 1 120 880 20) (0, 1000))]),
              ((1100, 2000), None)])]
   \<and> map_qv (alignment_to_output_dict (mk_alignment 1 120 880 10) (0, 1000)) = 10
   \<and> subread_start (alignment_to_output_dict (mk_alignment 1 120 880 20) (0, 1000)) = 120"
proof -
  have 1: "aggregate example_dict [mk_alignment 1 100 900 20, mk_alignment 1 120 880 10] []
     = Inr [((''m1'', 1),
             [((0, 1000),
               Some [(''primary'', alignment_to_output_dict (mk_alignment 1 120 880 10) (0, 1000))]),
              ((1100, 2000), None)])]"
    by (simp add: eval_aggregate mk_alignment_def)
  have 2: "aggregate example_dict [mk_alignment 1 100 900 20, mk_alignment 1 120 880 20] []
     = Inr [((''m1'', 1),
             [((0, 1000),
               Some [(''primary'', alignment_to_output_dict (mk_alignment 1 120 880 20) (0, 1000))]),
              ((1100, 2000), None)])]"
    by (simp add: eval_aggregate mk_alignment_def)
  have 3: "map_qv (alignment_to_output_dict (mk_alignment 1 120 880 10) (0, 1000)) = 10"
    "subread_start (alignment_to_output_dict (mk_alignment 1 120 880 20) (0, 1000)) = 120"
    by (simp_all add: alignment_to_output_dict_def mk_alignment_def)
  from 1 2 3 show ?thesis by blast
qed


end
